theory Spec2Isabelle
  imports Main "HOL-Library.Word"
begin

section \<open>Machine types\<close>

text \<open>
  \<open>size_t\<close> is the 64-bit unsigned integer of the Linux targets that offer
  \<open>memfd_create\<close>: addition, subtraction and multiplication wrap around.
  An object of the element type \<open>T\<close> is its object representation, \<open>sizeof(T)\<close>
  bytes; \<open>sizeof(T)\<close> is the template's parameter and is passed as \<open>sz\<close>.
\<close>

type_synonym size_t = "64 word"
type_synonym byte = "8 word"
type_synonym elem = "byte list"

section \<open>The doubly mapped region\<close>

text \<open>
  The memfd object holds \<open>R = m_size_bytes\<close> bytes: a map from file offsets to bytes.
  The constructor reserves \<open>2 * R\<close> bytes of address space at \<open>m_buffer\<close> and maps
  the object at offset 0 of the reservation and again at offset \<open>R\<close>, both times from
  file offset 0. A byte offset \<open>v\<close> from \<open>m_buffer\<close> therefore names file offset
  \<open>v\<close> in the first half, \<open>v - R\<close> in the second half, and nothing beyond.
\<close>

type_synonym backing = "nat \<Rightarrow> byte"

definition translate :: "nat \<Rightarrow> nat \<Rightarrow> nat option" where
  "translate R v = (if v < R then Some v else if v < 2 * R then Some (v - R) else None)"

text \<open>
  \<open>std::memcpy\<close> into the region, starting at byte offset \<open>v\<close> from \<open>m_buffer\<close>.
  Touching an address outside the reservation is undefined behaviour: the result is
  \<open>None\<close>. The bytes are stored in ascending order. The order in which
  \<open>std::memcpy\<close> stores is its own, and it shows only where one copy reaches the
  same file byte through both mappings, that is for more than \<open>R\<close> bytes: which of
  the two bytes such a copy leaves is not settled by this definition, and no statement
  below is about the region after such a copy.
\<close>

fun memcpy_to :: "nat \<Rightarrow> backing \<Rightarrow> nat \<Rightarrow> byte list \<Rightarrow> backing option" where
  "memcpy_to R m v [] = Some m"
| "memcpy_to R m v (b # bs) =
     (case translate R v of
        None \<Rightarrow> None
      | Some p \<Rightarrow> memcpy_to R (m(p := b)) (Suc v) bs)"

text \<open>\<open>std::memcpy\<close> of \<open>n\<close> bytes out of the region, from byte offset \<open>v\<close>.\<close>

fun memcpy_from :: "nat \<Rightarrow> backing \<Rightarrow> nat \<Rightarrow> nat \<Rightarrow> byte list option" where
  "memcpy_from R m v 0 = Some []"
| "memcpy_from R m v (Suc n) =
     (case translate R v of
        None \<Rightarrow> None
      | Some p \<Rightarrow>
          (case memcpy_from R m (Suc v) n of
             None \<Rightarrow> None
           | Some bs \<Rightarrow> Some (m p # bs)))"

text \<open>A byte sequence seen as an array of objects of \<open>n\<close> bytes each.\<close>

definition chunks :: "nat \<Rightarrow> 'a list \<Rightarrow> 'a list list" where
  "chunks n xs = map (\<lambda>i. take n (drop (i * n) xs)) [0..<length xs div n]"

section \<open>The class\<close>

record ring_buffer =
  m_size_bytes :: size_t
  m_capacity :: size_t
  m_buffer :: backing
  m_head :: size_t
  m_tail :: size_t

subsection \<open>Construction\<close>

datatype error = invalid_argument | system_error string

text \<open>
  What the host answers to the constructor's system calls: the value of
  \<open>sysconf(_SC_PAGESIZE)\<close> and whether each later call succeeds.
\<close>

record host =
  sysconf_pagesize :: int
  memfd_create_ok :: bool
  ftruncate_ok :: bool
  mmap_reserve_ok :: bool
  mmap_first_ok :: bool
  mmap_second_ok :: bool

definition get_page_size :: "host \<Rightarrow> error + size_t" where
  "get_page_size h =
     (if sysconf_pagesize h \<le> 0 then Inl (system_error ''failed to get page size'')
      else Inr (word_of_int (sysconf_pagesize h)))"

definition round_to_page :: "size_t \<Rightarrow> size_t \<Rightarrow> size_t" where
  "round_to_page ps size' = (if size' = 0 then ps else ((size' + ps - 1) div ps) * ps)"

text \<open>A fresh memfd object extended by \<open>ftruncate\<close> reads as zero bytes.\<close>

definition construct :: "host \<Rightarrow> size_t \<Rightarrow> size_t \<Rightarrow> error + ring_buffer" where
  "construct h sz requested_capacity =
     (if requested_capacity = 0 then Inl invalid_argument
      else case get_page_size h of
        Inl e \<Rightarrow> Inl e
      | Inr ps \<Rightarrow>
          (let size_bytes = round_to_page ps (requested_capacity * sz);
               cap = size_bytes div sz
           in if \<not> memfd_create_ok h then Inl (system_error ''memfd_create failed'')
              else if \<not> ftruncate_ok h then Inl (system_error ''ftruncate failed'')
              else if \<not> mmap_reserve_ok h then Inl (system_error ''mmap reservation failed'')
              else if \<not> mmap_first_ok h then Inl (system_error ''mmap first half failed'')
              else if \<not> mmap_second_ok h then Inl (system_error ''mmap second half failed'')
              else Inr \<lparr>m_size_bytes = size_bytes, m_capacity = cap,
                        m_buffer = (\<lambda>_. 0), m_head = 0, m_tail = 0\<rparr>))"

subsection \<open>Operations\<close>

text \<open>
  \<open>write\<close>, named \<open>write_rb\<close> because Isabelle reserves the word (\<open>size\<close> and
  \<open>empty\<close> below are \<open>size_rb\<close> and \<open>empty_rb\<close> for the same reason). The
  remainder \<open>m_head % m_capacity\<close> is undefined for a zero capacity, and so is a copy
  that leaves the reservation; both give \<open>None\<close>. \<open>data\<close> is the span's elements,
  \<open>concat data\<close> the \<open>size_bytes()\<close> bytes at \<open>data.data()\<close>.
\<close>

definition write_rb :: "size_t \<Rightarrow> ring_buffer \<Rightarrow> elem list \<Rightarrow> ring_buffer option" where
  "write_rb sz s data =
     (if m_capacity s = 0 then None
      else let target = unat (m_head s mod m_capacity s) * unat sz
           in case memcpy_to (unat (m_size_bytes s)) (m_buffer s) target (concat data) of
                None \<Rightarrow> None
              | Some m' \<Rightarrow>
                  (let head' = m_head s + of_nat (length data)
                   in Some (s\<lparr>m_buffer := m', m_head := head',
                             m_tail := (if head' - m_tail s > m_capacity s
                                        then head' - m_capacity s else m_tail s)\<rparr>)))"

text \<open>
  \<open>read\<close>: \<open>output\<close> is the span's present elements. The copy overwrites the first
  \<open>to_copy * sizeof(T)\<close> bytes of its storage. The result is the buffer, the span's
  elements afterwards, and the returned count.
\<close>

definition read :: "size_t \<Rightarrow> ring_buffer \<Rightarrow> elem list \<Rightarrow> (ring_buffer \<times> elem list \<times> size_t) option" where
  "read sz s output =
     (if m_capacity s = 0 then None
      else let available = m_head s - m_tail s;
               to_copy = min available (of_nat (length output));
               source = unat (m_tail s mod m_capacity s) * unat sz
           in case memcpy_from (unat (m_size_bytes s)) (m_buffer s) source (unat (to_copy * sz)) of
                None \<Rightarrow> None
              | Some bs \<Rightarrow>
                  Some (s\<lparr>m_tail := m_tail s + to_copy\<rparr>,
                        chunks (unat sz) (bs @ drop (length bs) (concat output)),
                        to_copy))"

definition size_rb :: "ring_buffer \<Rightarrow> size_t" where
  "size_rb s = m_head s - m_tail s"

definition capacity :: "ring_buffer \<Rightarrow> size_t" where
  "capacity s = m_capacity s"

definition empty_rb :: "ring_buffer \<Rightarrow> bool" where
  "empty_rb s = (m_head s = m_tail s)"

definition clear :: "ring_buffer \<Rightarrow> ring_buffer" where
  "clear s = s\<lparr>m_head := 0, m_tail := 0\<rparr>"

section \<open>States of a constructed buffer\<close>

text \<open>
  The fields the constructor sets and no operation changes: the element size is
  positive, and the capacity is the region's size divided by it and is positive.
\<close>

definition well_formed :: "size_t \<Rightarrow> ring_buffer \<Rightarrow> bool" where
  "well_formed sz s = (sz \<noteq> 0 \<and> m_capacity s \<noteq> 0 \<and> m_size_bytes s div sz = m_capacity s)"

text \<open>A span of objects of the element type: every element has \<open>sizeof(T)\<close> bytes.\<close>

definition elems_of :: "size_t \<Rightarrow> elem list \<Rightarrow> bool" where
  "elems_of sz xs = (\<forall>e\<in>set xs. length e = unat sz)"

text \<open>The two cursor invariants of the data model.\<close>

definition invariant :: "ring_buffer \<Rightarrow> bool" where
  "invariant s = (m_tail s \<le> m_head s \<and> m_head s - m_tail s \<le> m_capacity s)"

text \<open>
  The element size divides the region size: element index \<open>m_capacity\<close> of the
  reservation is then the first byte of the second mapping.
\<close>

definition aligned :: "size_t \<Rightarrow> ring_buffer \<Rightarrow> bool" where
  "aligned sz s = (unat (m_capacity s) * unat sz = unat (m_size_bytes s))"

text \<open>What the buffer holds: the elements a \<open>read\<close> into a span of \<open>size()\<close> elements delivers.\<close>

definition held :: "size_t \<Rightarrow> ring_buffer \<Rightarrow> elem list" where
  "held sz s =
     (case read sz s (replicate (unat (size_rb s)) (replicate (unat sz) 0)) of
        None \<Rightarrow> []
      | Some (s', out, n) \<Rightarrow> out)"

section \<open>Objects in the region\<close>

text \<open>The object \<open>m_buffer[i]\<close>: the \<open>sizeof(T)\<close> bytes at element index \<open>i\<close>.\<close>

definition object_at :: "size_t \<Rightarrow> ring_buffer \<Rightarrow> nat \<Rightarrow> elem option" where
  "object_at sz s i = memcpy_from (unat (m_size_bytes s)) (m_buffer s) (i * unat sz) (unat sz)"

section \<open>Sequences of operations\<close>

datatype operation = Write "elem list" | Read "elem list" | Clear

fun step :: "size_t \<Rightarrow> ring_buffer \<Rightarrow> operation \<Rightarrow> ring_buffer option" where
  "step sz s (Write d) = write_rb sz s d"
| "step sz s (Read output) = map_option fst (read sz s output)"
| "step sz s Clear = Some (clear s)"

fun run :: "size_t \<Rightarrow> ring_buffer \<Rightarrow> operation list \<Rightarrow> ring_buffer option" where
  "run sz s [] = Some s"
| "run sz s (x # xs) = (case step sz s x of None \<Rightarrow> None | Some s' \<Rightarrow> run sz s' xs)"

text \<open>
  A call the interface admits on a buffer of capacity \<open>c\<close>: spans hold objects of
  the element type, and a write has at most \<open>c\<close> elements.
\<close>

fun admissible :: "size_t \<Rightarrow> size_t \<Rightarrow> operation \<Rightarrow> bool" where
  "admissible sz c (Write d) = (elems_of sz d \<and> length d \<le> unat c)"
| "admissible sz c (Read output) = elems_of sz output"
| "admissible sz c Clear = True"

text \<open>The number of elements a sequence of operations writes.\<close>

fun written :: "operation list \<Rightarrow> nat" where
  "written [] = 0"
| "written (Write d # xs) = length d + written xs"
| "written (x # xs) = written xs"

section \<open>Concrete buffers\<close>

text \<open>A Linux host with 4096-byte pages on which every system call succeeds.\<close>

definition linux_host :: host where
  "linux_host = \<lparr>sysconf_pagesize = 4096, memfd_create_ok = True, ftruncate_ok = True,
                  mmap_reserve_ok = True, mmap_first_ok = True, mmap_second_ok = True\<rparr>"

text \<open>\<open>RingBuffer<int> rb(1024)\<close> on that host, as constructed: \<open>sizeof(int) = 4\<close>.\<close>

definition int_buffer :: ring_buffer where
  "int_buffer = \<lparr>m_size_bytes = 4096, m_capacity = 1024, m_buffer = (\<lambda>_. 0),
                  m_head = 0, m_tail = 0\<rparr>"

text \<open>The object representation of an \<open>int\<close> in \<open>[0, 256)\<close>, little-endian.\<close>

definition int_elem :: "byte \<Rightarrow> elem" where
  "int_elem b = [b, 0, 0, 0]"

text \<open>
  \<open>RingBuffer<rgb> rb(1365)\<close> on that host, as constructed, for a pixel type
  \<open>struct rgb { uint8_t r, g, b; }\<close> with \<open>sizeof(rgb) = 3\<close>.
\<close>

definition rgb_buffer :: ring_buffer where
  "rgb_buffer = \<lparr>m_size_bytes = 4096, m_capacity = 1365, m_buffer = (\<lambda>_. 0),
                  m_head = 0, m_tail = 0\<rparr>"

section \<open>Copies into and out of the mirrored region\<close>

lemma translate_mod: "v < 2 * R \<Longrightarrow> translate R v = Some (v mod R)"
  by (auto simp: translate_def le_mod_geq)

lemma translate_None: "\<not> v < 2 * R \<Longrightarrow> translate R v = None"
  by (auto simp: translate_def)

lemma memcpy_to_in_bounds:
  "v + length bs \<le> 2 * R \<Longrightarrow> \<exists>m'. memcpy_to R m v bs = Some m'"
  by (induction bs arbitrary: m v) (auto simp: translate_mod)

lemma memcpy_to_oob:
  "bs \<noteq> [] \<Longrightarrow> 2 * R < v + length bs \<Longrightarrow> memcpy_to R m v bs = None"
proof (induction bs arbitrary: m v)
  case Nil then show ?case by simp
next
  case (Cons b bs)
  show ?case
  proof (cases "v < 2 * R")
    case False then show ?thesis by (simp add: translate_None)
  next
    case True
    with Cons.prems have "bs \<noteq> []" by auto
    with Cons.IH [of "Suc v"] Cons.prems True show ?thesis
      by (simp add: translate_mod)
  qed
qed

lemma memcpy_to_other:
  "memcpy_to R m v bs = Some m' \<Longrightarrow> (\<And>k. k < length bs \<Longrightarrow> (v + k) mod R \<noteq> p) \<Longrightarrow> m' p = m p"
proof (induction bs arbitrary: m v)
  case Nil then show ?case by simp
next
  case (Cons b bs)
  from Cons.prems(1) have vb: "v < 2 * R"
    by (auto simp: translate_def split: if_splits option.splits)
  with Cons.prems(1) have step: "memcpy_to R (m(v mod R := b)) (Suc v) bs = Some m'"
    by (simp add: translate_mod)
  have "m' p = (m(v mod R := b)) p"
  proof (rule Cons.IH [OF step])
    fix k assume "k < length bs"
    then show "(Suc v + k) mod R \<noteq> p" using Cons.prems(2) [of "Suc k"] by simp
  qed
  moreover have "v mod R \<noteq> p" using Cons.prems(2) [of 0] by simp
  ultimately show ?case by simp
qed

lemma mod_inj_window:
  fixes R :: nat
  assumes "j < k" "k - j < R"
  shows "(v + j) mod R \<noteq> (v + k) mod R"
proof
  assume "(v + j) mod R = (v + k) mod R"
  then have "R dvd (v + k) - (v + j)"
    by (metis mod_eq_dvd_iff_nat add_le_cancel_left assms(1) less_imp_le)
  then have "R dvd k - j" by simp
  with assms show False by (auto dest: dvd_imp_le)
qed

lemma memcpy_to_nth:
  "memcpy_to R m v bs = Some m' \<Longrightarrow> length bs \<le> R \<Longrightarrow> k < length bs \<Longrightarrow> m' ((v + k) mod R) = bs ! k"
proof (induction bs arbitrary: m v k)
  case Nil then show ?case by simp
next
  case (Cons b bs)
  from Cons.prems(1) have vb: "v < 2 * R"
    by (auto simp: translate_def split: if_splits option.splits)
  with Cons.prems(1) have step: "memcpy_to R (m(v mod R := b)) (Suc v) bs = Some m'"
    by (simp add: translate_mod)
  show ?case
  proof (cases k)
    case 0
    have "m' (v mod R) = (m(v mod R := b)) (v mod R)"
    proof (rule memcpy_to_other [OF step])
      fix j assume "j < length bs"
      then have "(v + 0) mod R \<noteq> (v + Suc j) mod R"
        using Cons.prems(2) by (intro mod_inj_window) auto
      then show "(Suc v + j) mod R \<noteq> v mod R" by simp
    qed
    with 0 show ?thesis by simp
  next
    case (Suc j)
    with Cons.prems have "m' ((Suc v + j) mod R) = bs ! j"
      by (intro Cons.IH [OF step]) auto
    with Suc show ?thesis by simp
  qed
qed

lemma memcpy_from_in_bounds:
  "v + n \<le> 2 * R \<Longrightarrow> memcpy_from R m v n = Some (map (\<lambda>k. m ((v + k) mod R)) [0..<n])"
proof (induction n arbitrary: v)
  case 0 then show ?case by simp
next
  case (Suc n)
  then have "memcpy_from R m (Suc v) n = Some (map (\<lambda>k. m ((Suc v + k) mod R)) [0..<n])"
    by simp
  moreover have "map (\<lambda>k. m ((v + k) mod R)) [0..<Suc n] = m (v mod R) # map (\<lambda>k. m ((Suc v + k) mod R)) [0..<n]"
    by (simp add: upt_rec [of 0 "Suc n"] map_Suc_upt [symmetric] del: upt_Suc)
  ultimately show ?case using Suc.prems by (simp add: translate_mod del: upt_Suc)
qed

lemma memcpy_from_oob:
  "0 < n \<Longrightarrow> 2 * R < v + n \<Longrightarrow> memcpy_from R m v n = None"
proof (induction n arbitrary: v)
  case 0 then show ?case by simp
next
  case (Suc n)
  show ?case
  proof (cases "v < 2 * R")
    case False then show ?thesis by (simp add: translate_None)
  next
    case True
    with Suc.prems have "0 < n" by auto
    with Suc.IH [of "Suc v"] Suc.prems True show ?thesis
      by (simp add: translate_mod)
  qed
qed

lemma memcpy_roundtrip:
  assumes "memcpy_to R m v bs = Some m'" "length bs \<le> R" "v + length bs \<le> 2 * R"
  shows "memcpy_from R m' v (length bs) = Some bs"
proof -
  have "map (\<lambda>k. m' ((v + k) mod R)) [0..<length bs] = bs"
    by (rule nth_equalityI) (auto simp: memcpy_to_nth [OF assms(1,2)])
  then show ?thesis by (simp add: memcpy_from_in_bounds [OF assms(3)])
qed

section \<open>Arrays of objects as bytes\<close>

lemma length_concat_fixed:
  "\<forall>e\<in>set xs. length e = n \<Longrightarrow> length (concat xs) = length xs * n"
  by (induction xs) auto

lemma take_drop_concat:
  "\<forall>e\<in>set xs. length e = n \<Longrightarrow> i < length xs \<Longrightarrow> take n (drop (i * n) (concat xs)) = xs ! i"
proof (induction xs arbitrary: i)
  case Nil then show ?case by simp
next
  case (Cons x xs)
  then have lx: "length x = n" by simp
  show ?case
  proof (cases i)
    case 0 with lx show ?thesis by simp
  next
    case (Suc j)
    with Cons.prems have "take n (drop (j * n) (concat xs)) = xs ! j"
      by (intro Cons.IH) auto
    with Suc lx show ?thesis by simp
  qed
qed

lemma chunks_concat:
  assumes "0 < n" "\<forall>e\<in>set xs. length e = n"
  shows "chunks n (concat xs) = xs"
proof (rule nth_equalityI)
  show len: "length (chunks n (concat xs)) = length xs"
    using assms(1) by (simp add: chunks_def length_concat_fixed [OF assms(2)])
  fix i assume "i < length (chunks n (concat xs))"
  with len have "i < length xs" by simp
  then show "chunks n (concat xs) ! i = xs ! i"
    using assms(1) by (simp add: chunks_def length_concat_fixed [OF assms(2)] take_drop_concat [OF assms(2)])
qed

lemma drop_concat_fixed:
  "\<forall>e\<in>set xs. length e = n \<Longrightarrow> drop (k * n) (concat xs) = concat (drop k xs)"
proof (induction xs arbitrary: k)
  case Nil then show ?case by simp
next
  case (Cons x xs)
  then show ?case by (cases k) auto
qed

lemma chunks_append:
  assumes "0 < n" "length xs = k * n"
  shows "chunks n (xs @ ys) = chunks n xs @ chunks n ys"
proof (rule nth_equalityI)
  show len: "length (chunks n (xs @ ys)) = length (chunks n xs @ chunks n ys)"
    using assms by (simp add: chunks_def)
  fix i assume "i < length (chunks n (xs @ ys))"
  then have i: "i < k + length ys div n" using assms by (simp add: chunks_def)
  show "chunks n (xs @ ys) ! i = (chunks n xs @ chunks n ys) ! i"
  proof (cases "i < k")
    case True
    then have "Suc i * n \<le> k * n" by (intro mult_le_mono1) simp
    then have "i * n + n \<le> length xs" using assms(2) by simp
    then have "take n (drop (i * n) (xs @ ys)) = take n (drop (i * n) xs)" by simp
    with True i assms show ?thesis by (simp add: chunks_def nth_append)
  next
    case False
    then have "k * n \<le> i * n" by (intro mult_le_mono1) simp
    moreover have "i * n - k * n = (i - k) * n" by (simp add: diff_mult_distrib)
    ultimately have "drop (i * n) (xs @ ys) = drop ((i - k) * n) ys"
      using assms(2) by simp
    moreover have "i - k < length ys div n" using False i by arith
    ultimately show ?thesis using False i assms by (simp add: chunks_def nth_append)
  qed
qed

section \<open>Arithmetic of a well-formed buffer\<close>

lemma elems_of_Ball: "elems_of sz xs \<Longrightarrow> \<forall>e\<in>set xs. length e = unat sz"
  by (simp add: elems_of_def)

lemma well_formed_bound:
  assumes "well_formed sz s"
  shows "unat (m_capacity s) * unat sz \<le> unat (m_size_bytes s)"
proof -
  from assms have "m_size_bytes s div sz = m_capacity s"
    by (simp add: well_formed_def)
  then have "unat (m_capacity s) = unat (m_size_bytes s) div unat sz"
    by (simp add: unat_div [symmetric])
  then show ?thesis by simp
qed

lemma well_formed_pos:
  assumes "well_formed sz s"
  shows "0 < unat sz" "0 < unat (m_capacity s)"
  using assms unfolding well_formed_def unat_gt_0 by blast+

lemma unat_of_nat_le:
  fixes c :: size_t
  assumes "n \<le> unat c"
  shows "unat (of_nat n :: size_t) = n"
  using assms by (rule le_unat_uoi)

lemma unat_count_bytes:
  assumes "well_formed sz s" "n \<le> m_capacity s"
  shows "unat (n * sz) = unat n * unat sz"
proof -
  from assms(2) have "unat n \<le> unat (m_capacity s)" by (simp add: word_le_nat_alt)
  then have "unat n * unat sz \<le> unat (m_capacity s) * unat sz" by (rule mult_le_mono1)
  also note well_formed_bound [OF assms(1)]
  also have "unat (m_size_bytes s) < 2 ^ LENGTH(64)" by (rule unsigned_less)
  finally show ?thesis by (simp add: unat_mult_lem [THEN iffD1])
qed

lemma offset_in_bounds:
  assumes "well_formed sz s" "n \<le> unat (m_capacity s)"
  shows "unat (i mod m_capacity s) * unat sz + n * unat sz \<le> 2 * unat (m_size_bytes s)"
proof -
  have "unat (i mod m_capacity s) < unat (m_capacity s)"
    using well_formed_pos(2) [OF assms(1)] by (simp add: unat_mod)
  with assms(2) have "unat (i mod m_capacity s) + n \<le> 2 * unat (m_capacity s)" by simp
  then have "(unat (i mod m_capacity s) + n) * unat sz \<le> (2 * unat (m_capacity s)) * unat sz"
    by (rule mult_le_mono1)
  also have "\<dots> \<le> 2 * unat (m_size_bytes s)"
    using well_formed_bound [OF assms(1)] by simp
  finally show ?thesis by (simp add: add_mult_distrib)
qed

section \<open>What \<open>write\<close> and \<open>read\<close> compute inside the reservation\<close>

lemma write_rb_result:
  assumes wf: "well_formed sz s"
    and len: "length data \<le> unat (m_capacity s)"
    and el: "elems_of sz data"
  shows "\<exists>m'. memcpy_to (unat (m_size_bytes s)) (m_buffer s)
                 (unat (m_head s mod m_capacity s) * unat sz) (concat data) = Some m'
             \<and> write_rb sz s data =
                 Some (s\<lparr>m_buffer := m', m_head := m_head s + of_nat (length data),
                         m_tail := (if m_head s + of_nat (length data) - m_tail s > m_capacity s
                                    then m_head s + of_nat (length data) - m_capacity s
                                    else m_tail s)\<rparr>)"
proof -
  have lc: "length (concat data) = length data * unat sz"
    by (rule length_concat_fixed [OF elems_of_Ball [OF el]])
  have "unat (m_head s mod m_capacity s) * unat sz + length (concat data)
          \<le> 2 * unat (m_size_bytes s)"
    unfolding lc by (rule offset_in_bounds [OF wf len])
  from memcpy_to_in_bounds [OF this] obtain m' where
    m': "memcpy_to (unat (m_size_bytes s)) (m_buffer s)
           (unat (m_head s mod m_capacity s) * unat sz) (concat data) = Some m'"
    by blast
  moreover have "m_capacity s \<noteq> 0" using wf unfolding well_formed_def by blast
  ultimately show ?thesis by (simp add: write_rb_def Let_def)
qed

lemma read_result:
  assumes wf: "well_formed sz s"
    and bound: "m_head s - m_tail s \<le> m_capacity s"
    and el: "elems_of sz output"
  defines "to_copy \<equiv> min (m_head s - m_tail s) (of_nat (length output))"
  shows "read sz s output =
           Some (s\<lparr>m_tail := m_tail s + to_copy\<rparr>,
                 chunks (unat sz)
                   (map (\<lambda>k. m_buffer s ((unat (m_tail s mod m_capacity s) * unat sz + k)
                                           mod unat (m_size_bytes s)))
                        [0..<unat to_copy * unat sz])
                 @ drop (unat to_copy) output,
                 to_copy)"
proof -
  let ?R = "unat (m_size_bytes s)" and ?z = "unat sz"
  let ?src = "unat (m_tail s mod m_capacity s) * ?z"
  let ?bs = "map (\<lambda>k. m_buffer s ((?src + k) mod ?R)) [0..<unat to_copy * ?z]"
  have z: "0 < ?z" by (rule well_formed_pos(1) [OF wf])
  have "to_copy \<le> m_head s - m_tail s" by (simp add: to_copy_def)
  with bound have tc: "to_copy \<le> m_capacity s" by (rule order_trans [rotated])
  then have n: "unat to_copy \<le> unat (m_capacity s)" by (simp add: word_le_nat_alt)
  have bytes: "unat (to_copy * sz) = unat to_copy * ?z"
    by (rule unat_count_bytes [OF wf tc])
  have "?src + unat to_copy * ?z \<le> 2 * ?R"
    by (rule offset_in_bounds [OF wf n])
  then have cp: "memcpy_from ?R (m_buffer s) ?src (unat to_copy * ?z) = Some ?bs"
    by (rule memcpy_from_in_bounds)
  have "drop (length ?bs) (concat output) = concat (drop (unat to_copy) output)"
    using drop_concat_fixed [OF elems_of_Ball [OF el], of "unat to_copy"] by simp
  moreover have "chunks ?z (concat (drop (unat to_copy) output)) = drop (unat to_copy) output"
    using elems_of_Ball [OF el] by (intro chunks_concat [OF z]) (auto dest: in_set_dropD)
  moreover have "length ?bs = unat to_copy * ?z" by simp
  ultimately have out: "chunks ?z (?bs @ drop (length ?bs) (concat output))
      = chunks ?z ?bs @ drop (unat to_copy) output"
    using chunks_append [OF z, of ?bs "unat to_copy"] by simp
  have "m_capacity s \<noteq> 0" using wf unfolding well_formed_def by blast
  then show ?thesis
    using cp out bytes by (simp add: read_def Let_def to_copy_def [symmetric])
qed

section \<open>Round trip\<close>

lemma construct_int_buffer: "construct linux_host 4 1024 = Inr int_buffer"
  by (simp add: construct_def linux_host_def get_page_size_def round_to_page_def int_buffer_def)

lemma write_then_read:
  assumes wf: "well_formed sz s"
    and ht: "m_tail s = m_head s"
    and len': "length data \<le> unat (m_capacity s)"
    and el: "elems_of sz data"
    and out: "elems_of sz output" "length output = length data"
  shows "\<exists>m'. write_rb sz s data
                 = Some (s\<lparr>m_buffer := m', m_head := m_head s + of_nat (length data)\<rparr>)
           \<and> read sz (s\<lparr>m_buffer := m', m_head := m_head s + of_nat (length data)\<rparr>) output
                 = Some (s\<lparr>m_buffer := m', m_head := m_head s + of_nat (length data),
                           m_tail := m_head s + of_nat (length data)\<rparr>,
                         data, of_nat (length data))
           \<and> unat (of_nat (length data) :: size_t) = length data"
proof -
  let ?L = "of_nat (length data) :: size_t"
  let ?R = "unat (m_size_bytes s)" and ?z = "unat sz"
  let ?off = "unat (m_head s mod m_capacity s) * ?z"
  have uL: "unat ?L = length data" by (rule unat_of_nat_le [OF len'])
  then have Lc: "?L \<le> m_capacity s" using len' by (simp add: word_le_nat_alt)
  from write_rb_result [OF wf len' el] obtain m' where
    to: "memcpy_to ?R (m_buffer s) ?off (concat data) = Some m'"
    and w: "write_rb sz s data =
         Some (s\<lparr>m_buffer := m', m_head := m_head s + ?L,
                 m_tail := (if m_head s + ?L - m_tail s > m_capacity s
                            then m_head s + ?L - m_capacity s else m_tail s)\<rparr>)"
    by blast
  define s' where "s' = s\<lparr>m_buffer := m', m_head := m_head s + ?L\<rparr>"
  have "\<not> m_capacity s < ?L" using Lc by simp
  then have w': "write_rb sz s data = Some s'" using w by (simp add: ht s'_def)
  have wf': "well_formed sz s'" using wf by (simp add: well_formed_def s'_def)
  have avail: "m_head s' - m_tail s' = ?L" by (simp add: s'_def ht)
  have tc: "min (m_head s' - m_tail s') (of_nat (length output)) = ?L"
    by (simp add: avail out(2))
  have lc: "length (concat data) = length data * ?z"
    by (rule length_concat_fixed [OF elems_of_Ball [OF el]])
  have "length data * ?z \<le> unat (m_capacity s) * ?z" using len' by (rule mult_le_mono1)
  also note well_formed_bound [OF wf]
  finally have fits: "length (concat data) \<le> ?R" by (simp only: lc)
  have "?off + length (concat data) \<le> 2 * ?R"
    unfolding lc by (rule offset_in_bounds [OF wf len'])
  then have bytes: "map (\<lambda>k. m' ((?off + k) mod ?R)) [0..<length data * ?z] = concat data"
    using memcpy_roundtrip [OF to fits] memcpy_from_in_bounds [of ?off "length (concat data)" ?R m']
    by (simp add: lc)
  have fields: "m_buffer s' = m'" "m_tail s' = m_head s" "m_capacity s' = m_capacity s"
    "m_size_bytes s' = m_size_bytes s"
    by (simp_all add: s'_def ht)
  have bound': "m_head s' - m_tail s' \<le> m_capacity s'"
    by (simp add: avail fields(3) Lc)
  have "chunks ?z (map (\<lambda>k. m_buffer s' ((unat (m_tail s' mod m_capacity s') * ?z + k)
                                           mod unat (m_size_bytes s')))
                        [0..<unat ?L * ?z]) = data"
    unfolding fields uL bytes
    by (rule chunks_concat [OF well_formed_pos(1) [OF wf] elems_of_Ball [OF el]])
  moreover have "drop (unat ?L) output = []" by (simp add: uL out(2))
  ultimately have r: "read sz s' output = Some (s'\<lparr>m_tail := m_tail s' + ?L\<rparr>, data, ?L)"
    using read_result [OF wf' bound' out(1)] unfolding tc by simp
  have "s'\<lparr>m_tail := m_tail s' + ?L\<rparr>
      = s\<lparr>m_buffer := m', m_head := m_head s + ?L, m_tail := m_head s + ?L\<rparr>"
    by (simp add: s'_def ht)
  with w' r uL show ?thesis unfolding s'_def by (intro exI [of _ m']) simp
qed

text \<open>
  Claim C1. On an empty buffer (\<open>m_head = m_tail\<close>, at any position), writing
  \<open>L \<le> capacity\<close> elements and then reading into a span of \<open>L\<close> elements
  succeeds, returns the count \<open>L\<close>, leaves the written elements in the span in their
  original order, and leaves the buffer empty with \<open>size() = 0\<close>. This holds
  for every element size and also when the cursors wrap around \<open>2^64\<close>.
\<close>

theorem round_trip:
  assumes wf: "well_formed sz s"
    and emp: "empty_rb s"
    and len: "length data \<le> unat (capacity s)"
    and el: "elems_of sz data"
    and out: "elems_of sz output" "length output = length data"
  shows "\<exists>s' s'' n. write_rb sz s data = Some s'
           \<and> read sz s' output = Some (s'', data, n)
           \<and> unat n = length data
           \<and> size_rb s'' = 0 \<and> empty_rb s''"
proof -
  from len have len': "length data \<le> unat (m_capacity s)" by (simp add: capacity_def)
  from emp have ht: "m_tail s = m_head s" by (simp add: empty_rb_def)
  from write_then_read [OF wf ht len' el out] obtain m' where
    "write_rb sz s data = Some (s\<lparr>m_buffer := m', m_head := m_head s + of_nat (length data)\<rparr>)"
    "read sz (s\<lparr>m_buffer := m', m_head := m_head s + of_nat (length data)\<rparr>) output
       = Some (s\<lparr>m_buffer := m', m_head := m_head s + of_nat (length data),
                 m_tail := m_head s + of_nat (length data)\<rparr>,
               data, of_nat (length data))"
    "unat (of_nat (length data) :: size_t) = length data"
    by blast
  moreover have
    "size_rb (s\<lparr>m_buffer := m', m_head := m_head s + of_nat (length data),
                m_tail := m_head s + of_nat (length data)\<rparr>) = 0"
    "empty_rb (s\<lparr>m_buffer := m', m_head := m_head s + of_nat (length data),
                 m_tail := m_head s + of_nat (length data)\<rparr>)"
    by (simp_all add: size_rb_def empty_rb_def)
  ultimately show ?thesis by blast
qed

theorem round_trip_witness:
  "well_formed 4 int_buffer \<and> empty_rb int_buffer
   \<and> length (map int_elem [1, 2, 3, 4, 5]) \<le> unat (capacity int_buffer)
   \<and> elems_of 4 (map int_elem [1, 2, 3, 4, 5])
   \<and> elems_of 4 (map int_elem [0, 0, 0, 0, 0])
   \<and> length (map int_elem [0, 0, 0, 0, 0]) = length (map int_elem [1, 2, 3, 4, 5])
   \<and> (\<exists>s' s'' n. write_rb 4 int_buffer (map int_elem [1, 2, 3, 4, 5]) = Some s'
           \<and> read 4 s' (map int_elem [0, 0, 0, 0, 0]) = Some (s'', map int_elem [1, 2, 3, 4, 5], n)
           \<and> unat n = length (map int_elem [1, 2, 3, 4, 5])
           \<and> size_rb s'' = 0 \<and> empty_rb s'')"
proof -
  have h1: "well_formed 4 int_buffer" by (simp add: well_formed_def int_buffer_def)
  have h2: "empty_rb int_buffer" by (simp add: empty_rb_def int_buffer_def)
  have h3: "length (map int_elem [1, 2, 3, 4, 5]) \<le> unat (capacity int_buffer)"
    by (simp add: capacity_def int_buffer_def)
  have h4: "elems_of 4 (map int_elem [1, 2, 3, 4, 5])" by (simp add: elems_of_def int_elem_def)
  have h5: "elems_of 4 (map int_elem [0, 0, 0, 0, 0])" by (simp add: elems_of_def int_elem_def)
  have h6: "length (map int_elem [0, 0, 0, 0, 0]) = length (map int_elem [1, 2, 3, 4, 5])" by simp
  from round_trip [OF h1 h2 h3 h4 h5 h6] h1 h2 h3 h4 h5 h6 show ?thesis by blast
qed

section \<open>Cursor arithmetic\<close>

lemma write_rb_cursors:
  assumes "write_rb sz s d = Some s'"
  shows "m_head s' = m_head s + of_nat (length d)"
    and "m_tail s' = (if m_head s' - m_tail s > m_capacity s then m_head s' - m_capacity s else m_tail s)"
    and "m_capacity s' = m_capacity s" and "m_size_bytes s' = m_size_bytes s"
  using assms by (auto simp: write_rb_def Let_def split: if_splits option.splits)

lemma read_cursors:
  assumes "read sz s output = Some (s', out, n)"
  shows "n = min (m_head s - m_tail s) (of_nat (length output))"
    and "m_head s' = m_head s" and "m_tail s' = m_tail s + n"
    and "m_capacity s' = m_capacity s" and "m_size_bytes s' = m_size_bytes s"
    and "m_buffer s' = m_buffer s"
  using assms by (auto simp: read_def Let_def split: if_splits option.splits)

lemma write_cursor_arith:
  fixes h t c n :: size_t
  assumes "t \<le> h" "h - t \<le> c" "unat h + unat n < 2 ^ 64"
  defines "h' \<equiv> h + n"
  defines "t' \<equiv> (if h' - t > c then h' - c else t)"
  shows "h \<le> h'" "t \<le> t'" "t' \<le> h'" "h' - t' \<le> c" "unat h' = unat h + unat n"
proof -
  show 1: "unat h' = unat h + unat n"
    using assms(3) unfolding h'_def by (simp add: unat_add_lem [THEN iffD1])
  then show 2: "h \<le> h'" by (simp add: word_le_nat_alt)
  from assms(1) 2 have th: "t \<le> h'" by simp
  show "t \<le> t'" "t' \<le> h'" "h' - t' \<le> c"
    using th unfolding t'_def by (auto simp: word_le_nat_alt word_less_nat_alt unat_sub)
qed

lemma write_rb_invariant:
  assumes w: "write_rb sz s d = Some s'"
    and inv: "invariant s"
    and nowrap: "unat (m_head s) + length d < 2 ^ 64"
  shows "invariant s'" "m_head s \<le> m_head s'" "m_tail s \<le> m_tail s'"
    "unat (m_head s') = unat (m_head s) + length d"
proof -
  let ?n = "of_nat (length d) :: size_t"
  from nowrap have "length d < 2 ^ LENGTH(64)" by simp
  then have un: "unat ?n = length d" by (simp add: unat_of_nat)
  from inv have a: "m_tail s \<le> m_head s" "m_head s - m_tail s \<le> m_capacity s"
    by (simp_all add: invariant_def)
  from nowrap un have b: "unat (m_head s) + unat ?n < 2 ^ 64" by simp
  note c = write_rb_cursors [OF w]
  have eqs: "m_head s' = m_head s + ?n"
    "m_tail s' = (if m_head s + ?n - m_tail s > m_capacity s
                  then m_head s + ?n - m_capacity s else m_tail s)"
    using c(1,2) by simp_all
  note ar = write_cursor_arith [OF a b]
  show "invariant s'" unfolding invariant_def c(3) eqs using ar(3,4) by (rule conjI)
  show "m_head s \<le> m_head s'" unfolding eqs by (rule ar(1))
  show "m_tail s \<le> m_tail s'" unfolding eqs by (rule ar(2))
  show "unat (m_head s') = unat (m_head s) + length d" unfolding eqs using ar(5) by (simp only: un)
qed

lemma read_invariant:
  assumes r: "read sz s output = Some (s', out, n)"
    and inv: "invariant s"
  shows "invariant s'" "m_tail s \<le> m_tail s'" "n \<le> size_rb s"
proof -
  note c = read_cursors [OF r]
  from inv have a: "m_tail s \<le> m_head s" "m_head s - m_tail s \<le> m_capacity s"
    by (simp_all add: invariant_def)
  have n: "n \<le> m_head s - m_tail s" by (simp add: c(1))
  then show "n \<le> size_rb s" by (simp add: size_rb_def)
  from n a show "invariant s'" "m_tail s \<le> m_tail s'"
    unfolding invariant_def c(2,3,4) by unat_arith+
qed

lemma clear_invariant: "invariant (clear s)"
  by (simp add: invariant_def clear_def)

lemma well_formed_cong:
  "m_capacity s' = m_capacity s \<Longrightarrow> m_size_bytes s' = m_size_bytes s \<Longrightarrow>
   well_formed sz s' = well_formed sz s"
  by (simp add: well_formed_def)

section \<open>Cursor invariants along a run\<close>

lemma construct_fields:
  assumes "construct h sz requested_capacity = Inr s"
  shows "requested_capacity \<noteq> 0" "0 < sysconf_pagesize h"
    "m_size_bytes s = round_to_page (word_of_int (sysconf_pagesize h)) (requested_capacity * sz)"
    "m_capacity s = m_size_bytes s div sz"
    "m_buffer s = (\<lambda>_. 0)" "m_head s = 0" "m_tail s = 0"
  using assms
  by (auto simp: construct_def get_page_size_def Let_def split: if_splits)

lemma step_invariant:
  assumes wf: "well_formed sz s" and inv: "invariant s"
    and adm: "admissible sz (m_capacity s) x"
    and nowrap: "unat (m_head s) + written (x # xs) < 2 ^ 64"
  shows "\<exists>s'. step sz s x = Some s' \<and> invariant s' \<and> well_formed sz s'
           \<and> m_capacity s' = m_capacity s \<and> unat (m_head s') + written xs < 2 ^ 64"
proof (cases x)
  case (Write d)
  with adm have d: "elems_of sz d" "length d \<le> unat (m_capacity s)" by simp_all
  from write_rb_result [OF wf d(2,1)] obtain s' where w: "write_rb sz s d = Some s'" by blast
  from nowrap Write have nw: "unat (m_head s) + length d < 2 ^ 64" by simp
  note c = write_rb_cursors [OF w] and i = write_rb_invariant [OF w inv nw]
  have "well_formed sz s'" using wf by (simp add: well_formed_cong [OF c(3,4)])
  moreover have "unat (m_head s') + written xs < 2 ^ 64" using nowrap Write by (simp add: i(4))
  ultimately show ?thesis using Write w i(1) c(3) by simp
next
  case (Read outp)
  with adm have el: "elems_of sz outp" by simp
  from inv have b: "m_head s - m_tail s \<le> m_capacity s" by (simp add: invariant_def)
  from read_result [OF wf b el] obtain s' out n where r: "read sz s outp = Some (s', out, n)"
    by blast
  note c = read_cursors [OF r] and i = read_invariant [OF r inv]
  have "well_formed sz s'" using wf by (simp add: well_formed_cong [OF c(4,5)])
  moreover have "unat (m_head s') + written xs < 2 ^ 64" using nowrap Read by (simp add: c(2))
  ultimately show ?thesis using Read r i(1) c(4) by simp
next
  case Clear
  have "well_formed sz (clear s)" using wf by (simp add: well_formed_def clear_def)
  moreover have "unat (m_head (clear s)) + written xs < 2 ^ 64"
    using nowrap Clear by (simp add: clear_def)
  ultimately show ?thesis using Clear by (simp add: clear_invariant) (simp add: clear_def)
qed

lemma run_invariant:
  assumes "well_formed sz s" "invariant s"
    and "\<forall>x\<in>set ops. admissible sz (m_capacity s) x"
    and "unat (m_head s) + written ops < 2 ^ 64"
  shows "\<exists>s'. run sz s ops = Some s' \<and> invariant s' \<and> well_formed sz s'
           \<and> m_capacity s' = m_capacity s"
  using assms
proof (induction ops arbitrary: s)
  case Nil
  then show ?case by simp
next
  case (Cons x xs)
  from Cons.prems(3) have adm: "admissible sz (m_capacity s) x" by simp
  from step_invariant [OF Cons.prems(1,2) adm Cons.prems(4)] obtain s1 where
    s1: "step sz s x = Some s1" "invariant s1" "well_formed sz s1"
      "m_capacity s1 = m_capacity s" "unat (m_head s1) + written xs < 2 ^ 64"
    by blast
  from Cons.prems(3) s1(4) have "\<forall>x\<in>set xs. admissible sz (m_capacity s1) x" by simp
  from Cons.IH [OF s1(3,2) this s1(5)] obtain s' where
    "run sz s1 xs = Some s'" "invariant s'" "well_formed sz s'" "m_capacity s' = m_capacity s1"
    by blast
  with s1 show ?case by simp
qed

text \<open>
  Claim C5. From a freshly constructed buffer, every sequence of \<open>write\<close> (each of
  at most \<open>capacity\<close> elements), \<open>read\<close> and \<open>clear\<close> calls runs to the end
  without leaving the reservation, and the state it reaches has \<open>head \<ge> tail\<close>
  and \<open>head - tail \<le> capacity\<close>; \<open>size()\<close> is \<open>head - tail\<close>. The sequence
  is arbitrary, so this covers the state after each of its calls. The 64-bit \<open>m_head\<close>
  counts the elements written: the statement is for sequences that write fewer than
  \<open>2^64\<close> elements, so that the counter has not wrapped around.
\<close>

theorem cursor_invariants:
  assumes "construct h sz requested_capacity = Inr s0"
    and "well_formed sz s0"
    and "list_all (admissible sz (capacity s0)) ops"
    and "written ops < 2 ^ 64"
  shows "\<exists>s. run sz s0 ops = Some s \<and> m_tail s \<le> m_head s
           \<and> m_head s - m_tail s \<le> capacity s \<and> size_rb s = m_head s - m_tail s"
proof -
  note f = construct_fields [OF assms(1)]
  have "invariant s0" by (simp add: invariant_def f)
  moreover have "unat (m_head s0) + written ops < 2 ^ 64" using assms(4) by (simp add: f)
  moreover have "\<forall>x\<in>set ops. admissible sz (m_capacity s0) x"
    using assms(3) by (simp add: capacity_def list_all_iff)
  ultimately obtain s where "run sz s0 ops = Some s" "invariant s"
    using run_invariant [OF assms(2)] by blast
  then show ?thesis by (auto simp: invariant_def capacity_def size_rb_def)
qed

theorem cursor_invariants_witness:
  "construct linux_host 4 1024 = Inr int_buffer \<and> well_formed 4 int_buffer
   \<and> list_all (admissible 4 (capacity int_buffer))
         [Write (map int_elem [1, 2, 3]), Read (map int_elem [0, 0]), Clear,
          Write (map int_elem [4, 5])]
   \<and> written [Write (map int_elem [1, 2, 3]), Read (map int_elem [0, 0]), Clear,
          Write (map int_elem [4, 5])] < 2 ^ 64
   \<and> (\<exists>s. run 4 int_buffer
            [Write (map int_elem [1, 2, 3]), Read (map int_elem [0, 0]), Clear,
             Write (map int_elem [4, 5])] = Some s
          \<and> m_tail s \<le> m_head s \<and> m_head s - m_tail s \<le> capacity s
          \<and> size_rb s = m_head s - m_tail s)"
proof -
  let ?ops = "[Write (map int_elem [1, 2, 3]), Read (map int_elem [0, 0]), Clear,
               Write (map int_elem [4, 5])]"
  have h1: "construct linux_host 4 1024 = Inr int_buffer" by (rule construct_int_buffer)
  have h2: "well_formed 4 int_buffer" by (simp add: well_formed_def int_buffer_def)
  have h3: "list_all (admissible 4 (capacity int_buffer)) ?ops"
    by (simp add: capacity_def int_buffer_def elems_of_def int_elem_def)
  have h4: "written ?ops < 2 ^ 64" by simp
  from cursor_invariants [OF h1 h2 h3 h4] h1 h2 h3 h4 show ?thesis by blast
qed

section \<open>Monotone cursors\<close>

lemma step_monotone:
  assumes st: "step sz s x = Some s'" and nc: "x \<noteq> Clear" and inv: "invariant s"
    and nowrap: "unat (m_head s) + written (x # xs) < 2 ^ 64"
  shows "invariant s'" "m_head s \<le> m_head s'" "m_tail s \<le> m_tail s'"
    "unat (m_head s') + written xs = unat (m_head s) + written (x # xs)"
proof -
  have "invariant s' \<and> m_head s \<le> m_head s' \<and> m_tail s \<le> m_tail s'
      \<and> unat (m_head s') + written xs = unat (m_head s) + written (x # xs)"
  proof (cases x)
    case (Write d)
    with st have w: "write_rb sz s d = Some s'" by simp
    from nowrap Write have nw: "unat (m_head s) + length d < 2 ^ 64" by simp
    from write_rb_invariant [OF w inv nw] Write show ?thesis by simp
  next
    case (Read outp)
    with st obtain out n where r: "read sz s outp = Some (s', out, n)" by auto
    from read_invariant [OF r inv] read_cursors(2) [OF r] Read show ?thesis by simp
  next
    case Clear
    with nc show ?thesis by simp
  qed
  then show "invariant s'" "m_head s \<le> m_head s'" "m_tail s \<le> m_tail s'"
    "unat (m_head s') + written xs = unat (m_head s) + written (x # xs)"
    by blast+
qed

lemma run_monotone:
  assumes "invariant s0" "Clear \<notin> set ops" "run sz s0 ops = Some s"
    "unat (m_head s0) + written ops < 2 ^ 64"
  shows "invariant s \<and> m_head s0 \<le> m_head s \<and> m_tail s0 \<le> m_tail s
         \<and> unat (m_head s) = unat (m_head s0) + written ops"
  using assms
proof (induction ops arbitrary: s0)
  case Nil
  then show ?case by simp
next
  case (Cons x xs)
  from Cons.prems(3) obtain s1 where s1: "step sz s0 x = Some s1" "run sz s1 xs = Some s"
    by (auto split: option.splits)
  from Cons.prems(2) have nc: "x \<noteq> Clear" "Clear \<notin> set xs" by auto
  note m = step_monotone [OF s1(1) nc(1) Cons.prems(1,4)]
  from Cons.prems(4) m(4) have "unat (m_head s1) + written xs < 2 ^ 64" by simp
  from Cons.IH [OF m(1) nc(2) s1(2) this] m show ?case by auto
qed

text \<open>
  Claim C9. Along any sequence of \<open>write\<close> and \<open>read\<close> calls without \<open>clear\<close>
  that runs to the end, neither \<open>m_head\<close> nor \<open>m_tail\<close> decreases, and \<open>m_head\<close>
  grows by the number of elements written. At the state reached, a \<open>write\<close> adds
  its length to \<open>m_head\<close>, a \<open>read\<close> adds the count it returns to \<open>m_tail\<close> and
  leaves \<open>m_head\<close>, and \<open>clear\<close> sets both to zero. The order on the 64-bit
  cursors is that of the counts while fewer than \<open>2^64\<close> elements have been written.
\<close>

theorem cursors_monotone:
  assumes "invariant s0" and "Clear \<notin> set ops" and "run sz s0 ops = Some s"
    and "unat (m_head s0) + written ops < 2 ^ 64"
  shows "m_head s0 \<le> m_head s \<and> m_tail s0 \<le> m_tail s
         \<and> m_head s = m_head s0 + of_nat (written ops)
         \<and> (\<forall>d s'. write_rb sz s d = Some s' \<longrightarrow> m_head s' = m_head s + of_nat (length d))
         \<and> (\<forall>outp s' out n. read sz s outp = Some (s', out, n) \<longrightarrow>
               m_tail s' = m_tail s + n \<and> m_head s' = m_head s)
         \<and> m_head (clear s) = 0 \<and> m_tail (clear s) = 0"
proof -
  from run_monotone [OF assms] have m: "m_head s0 \<le> m_head s" "m_tail s0 \<le> m_tail s"
    "unat (m_head s) = unat (m_head s0) + written ops" by blast+
  from m(3) have "of_nat (unat (m_head s)) = (of_nat (unat (m_head s0) + written ops) :: size_t)"
    by simp
  then have "m_head s = m_head s0 + of_nat (written ops)" by simp
  moreover have "\<forall>d s'. write_rb sz s d = Some s' \<longrightarrow> m_head s' = m_head s + of_nat (length d)"
    by (simp add: write_rb_cursors(1))
  moreover have "\<forall>outp s' out n. read sz s outp = Some (s', out, n) \<longrightarrow>
               m_tail s' = m_tail s + n \<and> m_head s' = m_head s"
    by (simp add: read_cursors(2,3))
  moreover have "m_head (clear s) = 0 \<and> m_tail (clear s) = 0" by (simp add: clear_def)
  ultimately show ?thesis using m(1,2) by blast
qed

theorem cursors_monotone_witness:
  "invariant int_buffer
   \<and> Clear \<notin> set [Write (map int_elem [1, 2, 3]), Read (map int_elem [0, 0]), Write (map int_elem [4, 5])]
   \<and> unat (m_head int_buffer)
       + written [Write (map int_elem [1, 2, 3]), Read (map int_elem [0, 0]), Write (map int_elem [4, 5])]
       < 2 ^ 64
   \<and> (\<exists>s. run 4 int_buffer
              [Write (map int_elem [1, 2, 3]), Read (map int_elem [0, 0]), Write (map int_elem [4, 5])]
            = Some s
          \<and> m_head int_buffer \<le> m_head s \<and> m_tail int_buffer \<le> m_tail s
          \<and> m_head s = 5
          \<and> (\<exists>s'. write_rb 4 s (map int_elem [6, 7]) = Some s' \<and> m_head s' = m_head s + 2)
          \<and> (\<exists>s' out n. read 4 s (map int_elem [0]) = Some (s', out, n)
                \<and> m_tail s' = m_tail s + n \<and> m_head s' = m_head s)
          \<and> m_head (clear s) = 0 \<and> m_tail (clear s) = 0)"
proof -
  let ?ops = "[Write (map int_elem [1, 2, 3]), Read (map int_elem [0, 0]), Write (map int_elem [4, 5])]"
  have wf: "well_formed 4 int_buffer" by (simp add: well_formed_def int_buffer_def)
  have h1: "invariant int_buffer" by (simp add: invariant_def int_buffer_def)
  have h2: "Clear \<notin> set ?ops" by simp
  have h4: "unat (m_head int_buffer) + written ?ops < 2 ^ 64" by (simp add: int_buffer_def)
  have adm: "\<forall>x\<in>set ?ops. admissible 4 (m_capacity int_buffer) x"
    by (simp add: int_buffer_def elems_of_def int_elem_def)
  from run_invariant [OF wf h1 adm h4] obtain s where
    s: "run 4 int_buffer ?ops = Some s" "invariant s" "well_formed 4 s"
      "m_capacity s = m_capacity int_buffer"
    by blast
  note c = cursors_monotone [OF h1 h2 s(1) h4]
  have "length (map int_elem [6, 7]) \<le> unat (m_capacity s)" by (simp add: s(4) int_buffer_def)
  moreover have "elems_of 4 (map int_elem [6, 7])" by (simp add: elems_of_def int_elem_def)
  ultimately obtain s' where w: "write_rb 4 s (map int_elem [6, 7]) = Some s'"
    using write_rb_result [OF s(3)] by blast
  with c have w': "m_head s' = m_head s + 2" by simp
  have "m_head s - m_tail s \<le> m_capacity s" using s(2) by (simp add: invariant_def)
  moreover have "elems_of 4 (map int_elem [0])" by (simp add: elems_of_def int_elem_def)
  ultimately obtain s'' out n where r: "read 4 s (map int_elem [0]) = Some (s'', out, n)"
    using read_result [OF s(3)] by blast
  with c have r': "m_tail s'' = m_tail s + n \<and> m_head s'' = m_head s" by blast
  from c have "m_head s = 5" by (simp add: int_buffer_def)
  with c w w' r r' s(1) h1 h2 h4 show ?thesis by blast
qed

section \<open>Indexing an array of objects\<close>

lemma chunks_length: "0 < n \<Longrightarrow> length (chunks n xs) = length xs div n"
  by (simp add: chunks_def)

lemma chunks_nth:
  "i < length xs div n \<Longrightarrow> chunks n xs ! i = take n (drop (i * n) xs)"
  by (simp add: chunks_def)

lemma take_drop_map_upt:
  assumes "i * z + z \<le> N"
  shows "take z (drop (i * z) (map f [0..<N])) = map (\<lambda>k. f (i * z + k)) [0..<z]"
proof (rule nth_equalityI)
  show "length (take z (drop (i * z) (map f [0..<N]))) = length (map (\<lambda>k. f (i * z + k)) [0..<z])"
    using assms by simp
  fix k assume "k < length (take z (drop (i * z) (map f [0..<N])))"
  then have "k < z" by simp
  with assms show "take z (drop (i * z) (map f [0..<N])) ! k = map (\<lambda>k. f (i * z + k)) [0..<z] ! k"
    by simp
qed

lemma object_at_in_bounds:
  assumes "(i + 1) * unat sz \<le> 2 * unat (m_size_bytes s)"
  shows "object_at sz s i =
           Some (map (\<lambda>k. m_buffer s ((i * unat sz + k) mod unat (m_size_bytes s))) [0..<unat sz])"
  unfolding object_at_def using assms by (intro memcpy_from_in_bounds) simp

section \<open>Partial reads\<close>

lemma read_elements:
  assumes wf: "well_formed sz s"
    and bound: "m_head s - m_tail s \<le> m_capacity s"
    and el: "elems_of sz outp"
    and M: "length outp < 2 ^ 64"
  defines "n \<equiv> min (m_head s - m_tail s) (of_nat (length outp))"
  shows "\<exists>out. read sz s outp = Some (s\<lparr>m_tail := m_tail s + n\<rparr>, out, n)
           \<and> unat n = min (unat (m_head s - m_tail s)) (length outp)
           \<and> length out = length outp
           \<and> (\<forall>i<unat n. object_at sz s (unat (m_tail s mod m_capacity s) + i) = Some (out ! i))
           \<and> drop (unat n) out = drop (unat n) outp"
proof -
  let ?R = "unat (m_size_bytes s)" and ?z = "unat sz"
  let ?o = "unat (m_tail s mod m_capacity s)"
  let ?f = "\<lambda>k. m_buffer s ((?o * ?z + k) mod ?R)"
  let ?bs = "map ?f [0..<unat n * ?z]"
  let ?out = "chunks ?z ?bs @ drop (unat n) outp"
  have z: "0 < ?z" by (rule well_formed_pos(1) [OF wf])
  from M have "length outp < 2 ^ LENGTH(64)" by simp
  then have uM: "unat (of_nat (length outp) :: size_t) = length outp" by (simp add: unat_of_nat)
  have un: "unat n = min (unat (m_head s - m_tail s)) (length outp)"
    unfolding n_def by (simp add: min_def word_le_nat_alt uM)
  have r: "read sz s outp = Some (s\<lparr>m_tail := m_tail s + n\<rparr>, ?out, n)"
    unfolding n_def by (rule read_result [OF wf bound el])
  have lc: "length (chunks ?z ?bs) = unat n" using z by (simp add: chunks_length)
  from un have "unat n \<le> length outp" by simp
  then have len: "length ?out = length outp" by (simp only: length_append lc length_drop)
  have "n \<le> m_head s - m_tail s" by (simp add: n_def)
  with bound have "n \<le> m_capacity s" by (rule order_trans [rotated])
  then have nc: "unat n \<le> unat (m_capacity s)" by (simp add: word_le_nat_alt)
  have obj: "object_at sz s (?o + i) = Some (?out ! i)" if i: "i < unat n" for i
  proof -
    from i have "Suc i \<le> unat n" by simp
    then have iz: "i * ?z + ?z \<le> unat n * ?z" using mult_le_mono1 [of "Suc i" "unat n" ?z] by simp
    from i have "i < length ?bs div ?z" using z by simp
    then have "?out ! i = take ?z (drop (i * ?z) ?bs)"
      using i by (simp add: nth_append lc chunks_nth del: length_map)
    also have "\<dots> = map (\<lambda>k. ?f (i * ?z + k)) [0..<?z]" by (rule take_drop_map_upt [OF iz])
    finally have a: "?out ! i = map (\<lambda>k. m_buffer s (((?o + i) * ?z + k) mod ?R)) [0..<?z]"
      by (simp add: add_mult_distrib add.assoc)
    have "?o * ?z + unat n * ?z \<le> 2 * ?R" by (rule offset_in_bounds [OF wf nc])
    with iz have "(?o + i + 1) * ?z \<le> 2 * ?R" by (simp add: add_mult_distrib)
    from object_at_in_bounds [OF this] a show ?thesis by simp
  qed
  have "drop (unat n) ?out = drop (unat n) outp" by (simp add: lc)
  with r un len obj show ?thesis by blast
qed

section \<open>Clear\<close>

lemma read_empty:
  assumes wf: "well_formed sz s" and ht: "m_head s = m_tail s"
    and el: "elems_of sz outp" and M: "length outp < 2 ^ 64"
  shows "read sz s outp = Some (s, outp, 0)"
proof -
  have bound: "m_head s - m_tail s \<le> m_capacity s" by (simp add: ht)
  from read_elements [OF wf bound el M] obtain out where
    r: "read sz s outp = Some (s\<lparr>m_tail := m_tail s + min (m_head s - m_tail s) (of_nat (length outp))\<rparr>,
          out, min (m_head s - m_tail s) (of_nat (length outp)))"
    and d: "drop (unat (min (m_head s - m_tail s) (of_nat (length outp)) :: size_t)) out
          = drop (unat (min (m_head s - m_tail s) (of_nat (length outp)) :: size_t)) outp"
    by blast
  have z: "min (m_head s - m_tail s) (of_nat (length outp)) = (0 :: size_t)" by (simp add: ht)
  from d have "out = outp" unfolding z by simp
  with r show ?thesis unfolding z by simp
qed

text \<open>
  Claim C8. \<open>clear\<close> sets \<open>m_head\<close> and \<open>m_tail\<close> to zero and changes neither the
  capacity nor the region's size nor a byte of the region. Afterwards \<open>size()\<close> is 0
  and the buffer is empty, a \<open>read\<close> returns 0 and leaves the span as it was, and a
  \<open>write\<close> of at most \<open>capacity\<close> elements followed by a \<open>read\<close> of as many
  returns the written elements with the same count and the same cursors as on the
  buffer \<open>f\<close> that the constructor returns for the same region size.
\<close>

theorem clear_resets:
  assumes wf: "well_formed sz s"
    and f: "construct h sz requested_capacity = Inr f" "m_size_bytes f = m_size_bytes s"
    and el: "elems_of sz data" and len: "length data \<le> unat (capacity s)"
    and out: "elems_of sz outp" "length outp = length data"
  shows "m_head (clear s) = 0 \<and> m_tail (clear s) = 0
         \<and> capacity (clear s) = capacity s \<and> m_size_bytes (clear s) = m_size_bytes s
         \<and> m_buffer (clear s) = m_buffer s
         \<and> size_rb (clear s) = 0 \<and> empty_rb (clear s)
         \<and> read sz (clear s) outp = Some (clear s, outp, 0)
         \<and> (\<exists>s' s'' f' f'' n.
               write_rb sz (clear s) data = Some s' \<and> read sz s' outp = Some (s'', data, n)
               \<and> write_rb sz f data = Some f' \<and> read sz f' outp = Some (f'', data, n)
               \<and> unat n = length data \<and> empty_rb s''
               \<and> m_head s' = m_head f' \<and> m_tail s' = m_tail f'
               \<and> m_head s'' = m_head f'' \<and> m_tail s'' = m_tail f'')"
proof -
  let ?L = "of_nat (length data) :: size_t"
  note ff = construct_fields [OF f(1)]
  from wf have cap: "m_size_bytes s div sz = m_capacity s" by (simp add: well_formed_def)
  have fcap: "m_capacity f = m_capacity s" by (simp add: ff(4) f(2) cap)
  have wff: "well_formed sz f" using wf by (simp add: well_formed_def fcap f(2))
  have wfc: "well_formed sz (clear s)" using wf by (simp add: well_formed_def clear_def)
  from len have lenc: "length data \<le> unat (m_capacity (clear s))"
    and lenf: "length data \<le> unat (m_capacity f)"
    by (simp_all add: capacity_def clear_def fcap)
  have "unat (m_capacity s) < 2 ^ 64" using unsigned_less [of "m_capacity s"] by simp
  with len out(2) have M: "length outp < 2 ^ 64" by (simp add: capacity_def)
  have r0: "read sz (clear s) outp = Some (clear s, outp, 0)"
    by (rule read_empty [OF wfc _ out(1) M]) (simp add: clear_def)
  from write_then_read [OF wfc _ lenc el out] obtain m' where
    s: "write_rb sz (clear s) data = Some (clear s\<lparr>m_buffer := m', m_head := m_head (clear s) + ?L\<rparr>)"
      "read sz (clear s\<lparr>m_buffer := m', m_head := m_head (clear s) + ?L\<rparr>) outp
         = Some (clear s\<lparr>m_buffer := m', m_head := m_head (clear s) + ?L,
                   m_tail := m_head (clear s) + ?L\<rparr>, data, ?L)"
      "unat ?L = length data"
    by (auto simp: clear_def)
  from write_then_read [OF wff _ lenf el out] obtain mf where
    t: "write_rb sz f data = Some (f\<lparr>m_buffer := mf, m_head := m_head f + ?L\<rparr>)"
      "read sz (f\<lparr>m_buffer := mf, m_head := m_head f + ?L\<rparr>) outp
         = Some (f\<lparr>m_buffer := mf, m_head := m_head f + ?L, m_tail := m_head f + ?L\<rparr>, data, ?L)"
    by (auto simp: ff)
  have "\<exists>s' s'' f' f'' n.
               write_rb sz (clear s) data = Some s' \<and> read sz s' outp = Some (s'', data, n)
               \<and> write_rb sz f data = Some f' \<and> read sz f' outp = Some (f'', data, n)
               \<and> unat n = length data \<and> empty_rb s''
               \<and> m_head s' = m_head f' \<and> m_tail s' = m_tail f'
               \<and> m_head s'' = m_head f'' \<and> m_tail s'' = m_tail f''"
    using s t
    by (intro exI [of _ "clear s\<lparr>m_buffer := m', m_head := m_head (clear s) + ?L\<rparr>"]
              exI [of _ "clear s\<lparr>m_buffer := m', m_head := m_head (clear s) + ?L,
                                 m_tail := m_head (clear s) + ?L\<rparr>"]
              exI [of _ "f\<lparr>m_buffer := mf, m_head := m_head f + ?L\<rparr>"]
              exI [of _ "f\<lparr>m_buffer := mf, m_head := m_head f + ?L, m_tail := m_head f + ?L\<rparr>"]
              exI [of _ ?L])
       (simp add: empty_rb_def clear_def ff)
  with r0 show ?thesis by (simp add: clear_def capacity_def size_rb_def empty_rb_def)
qed

theorem clear_resets_witness:
  "well_formed 4 (int_buffer\<lparr>m_head := 7, m_tail := 3\<rparr>)
   \<and> construct linux_host 4 1024 = Inr int_buffer
   \<and> m_size_bytes int_buffer = m_size_bytes (int_buffer\<lparr>m_head := 7, m_tail := 3\<rparr>)
   \<and> elems_of 4 (map int_elem [1, 2, 3])
   \<and> length (map int_elem [1, 2, 3]) \<le> unat (capacity (int_buffer\<lparr>m_head := 7, m_tail := 3\<rparr>))
   \<and> elems_of 4 (map int_elem [0, 0, 0])
   \<and> length (map int_elem [0, 0, 0]) = length (map int_elem [1, 2, 3])
   \<and> m_head (clear (int_buffer\<lparr>m_head := 7, m_tail := 3\<rparr>)) = 0
   \<and> m_tail (clear (int_buffer\<lparr>m_head := 7, m_tail := 3\<rparr>)) = 0
   \<and> capacity (clear (int_buffer\<lparr>m_head := 7, m_tail := 3\<rparr>)) = 1024
   \<and> size_rb (clear (int_buffer\<lparr>m_head := 7, m_tail := 3\<rparr>)) = 0
   \<and> read 4 (clear (int_buffer\<lparr>m_head := 7, m_tail := 3\<rparr>)) (map int_elem [0, 0, 0])
       = Some (clear (int_buffer\<lparr>m_head := 7, m_tail := 3\<rparr>), map int_elem [0, 0, 0], 0)
   \<and> (\<exists>s' s'' f' f'' n.
         write_rb 4 (clear (int_buffer\<lparr>m_head := 7, m_tail := 3\<rparr>)) (map int_elem [1, 2, 3]) = Some s'
         \<and> read 4 s' (map int_elem [0, 0, 0]) = Some (s'', map int_elem [1, 2, 3], n)
         \<and> write_rb 4 int_buffer (map int_elem [1, 2, 3]) = Some f'
         \<and> read 4 f' (map int_elem [0, 0, 0]) = Some (f'', map int_elem [1, 2, 3], n)
         \<and> unat n = 3 \<and> empty_rb s''
         \<and> m_head s'' = m_head f'' \<and> m_tail s'' = m_tail f'')"
proof -
  let ?s = "int_buffer\<lparr>m_head := 7, m_tail := 3\<rparr>"
  have h1: "well_formed 4 ?s" by (simp add: well_formed_def int_buffer_def)
  have h2: "construct linux_host 4 1024 = Inr int_buffer" by (rule construct_int_buffer)
  have h3: "m_size_bytes int_buffer = m_size_bytes ?s" by simp
  have h4: "elems_of 4 (map int_elem [1, 2, 3])" by (simp add: elems_of_def int_elem_def)
  have h5: "length (map int_elem [1, 2, 3]) \<le> unat (capacity ?s)"
    by (simp add: capacity_def int_buffer_def)
  have h6: "elems_of 4 (map int_elem [0, 0, 0])" by (simp add: elems_of_def int_elem_def)
  have h7: "length (map int_elem [0, 0, 0]) = length (map int_elem [1, 2, 3])" by simp
  have c: "capacity ?s = 1024" by (simp add: capacity_def int_buffer_def)
  have l: "length (map int_elem [1, 2, 3]) = 3" by simp
  note A = clear_resets [OF h1 h2 h3 h4 h5 h6 h7, unfolded c l]
  from A h1 h2 h3 h4 h5 h6 h7 show ?thesis by blast
qed

section \<open>Page rounding and capacity\<close>

lemma construct_rgb_buffer: "construct linux_host 3 1365 = Inr rgb_buffer"
  by (simp add: construct_def linux_host_def get_page_size_def round_to_page_def rgb_buffer_def)

lemma round_to_page_least:
  assumes ps: "ps \<noteq> 0" and n: "n \<noteq> 0" and nowrap: "unat n + unat ps \<le> 2 ^ 64"
  shows "unat ps dvd unat (round_to_page ps n)"
    and "unat n \<le> unat (round_to_page ps n)"
    and "unat (round_to_page ps n) < unat n + unat ps"
proof -
  let ?p = "unat ps" and ?n = "unat n"
  have p: "0 < ?p" and n': "0 < ?n" using ps n by (simp_all add: unat_gt_0)
  have a: "unat (n + ps) = ?n + ?p" if "?n + ?p < 2 ^ 64"
    using that by (simp add: unat_add_lem [THEN iffD1])
  have s: "unat (n + ps - 1) = ?n + ?p - 1"
  proof -
    have e: "n + ps - 1 = n + (ps - 1)" by simp
    have u: "unat (ps - 1) = ?p - 1" using ps by (simp add: unat_minus_one)
    have "?n + unat (ps - 1) < 2 ^ LENGTH(64)" using nowrap p unfolding u by simp
    then have "unat (n + (ps - 1)) = ?n + unat (ps - 1)" by (rule unat_add_lem [THEN iffD1])
    then show ?thesis unfolding e u using p by simp
  qed
  have d: "unat ((n + ps - 1) div ps) = (?n + ?p - 1) div ?p" by (simp add: unat_div s)
  have "(?n + ?p - 1) div ?p * ?p \<le> ?n + ?p - 1" by simp
  also have "\<dots> < 2 ^ LENGTH(64)" using nowrap p by simp
  finally have m: "unat ((n + ps - 1) div ps * ps) = (?n + ?p - 1) div ?p * ?p"
    by (simp add: unat_mult_lem [THEN iffD1] d)
  have r: "unat (round_to_page ps n) = (?n + ?p - 1) div ?p * ?p"
    using n by (simp add: round_to_page_def m)
  show "?p dvd unat (round_to_page ps n)" by (simp add: r)
  have "(?n + ?p - 1) div ?p * ?p = (?n + ?p - 1) - (?n + ?p - 1) mod ?p"
    by (simp add: minus_mod_eq_div_mult)
  moreover have "(?n + ?p - 1) mod ?p < ?p" using p by simp
  ultimately show "?n \<le> unat (round_to_page ps n)" using p n' unfolding r by linarith
  have "(?n + ?p - 1) div ?p * ?p \<le> ?n + ?p - 1" by simp
  then show "unat (round_to_page ps n) < ?n + ?p" using p n' unfolding r by linarith
qed

lemma construct_region:
  assumes c: "construct h sz requested_capacity = Inr s"
    and sz: "sz \<noteq> 0"
    and long: "sysconf_pagesize h < 2 ^ 63"
    and nowrap: "unat requested_capacity * unat sz + nat (sysconf_pagesize h) \<le> 2 ^ 64"
  shows "nat (sysconf_pagesize h) dvd unat (m_size_bytes s)"
    and "unat requested_capacity * unat sz \<le> unat (m_size_bytes s)"
    and "unat (m_size_bytes s) < unat requested_capacity * unat sz + nat (sysconf_pagesize h)"
    and "well_formed sz s"
    and "unat sz dvd nat (sysconf_pagesize h) \<Longrightarrow> unat (capacity s) * unat sz = unat (m_size_bytes s)"
proof -
  let ?ps = "word_of_int (sysconf_pagesize h) :: size_t"
  let ?n = "requested_capacity * sz"
  note f = construct_fields [OF c]
  have "sysconf_pagesize h < 2 ^ 64" using long by simp
  with f(2) have ups: "unat ?ps = nat (sysconf_pagesize h)"
    by (simp add: unat_eq_nat_uint uint_word_of_int take_bit_int_eq_self)
  with f(2) have ps: "?ps \<noteq> 0" by (auto simp: unat_eq_0 [symmetric] simp del: unat_eq_0)
  have z: "0 < unat sz" and rq: "0 < unat requested_capacity"
    using sz f(1) by (simp_all add: unat_gt_0)
  have "unat requested_capacity * unat sz < 2 ^ LENGTH(64)" using nowrap f(2) by simp
  then have un: "unat ?n = unat requested_capacity * unat sz"
    by (rule unat_mult_lem [THEN iffD1])
  with z rq have n: "?n \<noteq> 0" by (auto simp: unat_eq_0 [symmetric] simp del: unat_eq_0)
  have nw: "unat ?n + unat ?ps \<le> 2 ^ 64" using nowrap by (simp add: un ups)
  note r = round_to_page_least [OF ps n nw, folded f(3), unfolded un ups]
  show "nat (sysconf_pagesize h) dvd unat (m_size_bytes s)" by (rule r(1))
  show le: "unat requested_capacity * unat sz \<le> unat (m_size_bytes s)" by (rule r(2))
  show "unat (m_size_bytes s) < unat requested_capacity * unat sz + nat (sysconf_pagesize h)"
    by (rule r(3))
  have "unat sz \<le> unat requested_capacity * unat sz" using rq by simp
  also note le
  finally have "unat sz \<le> unat (m_size_bytes s)" .
  then have "0 < unat (m_size_bytes s) div unat sz" using z by (simp add: div_greater_zero_iff)
  then have "m_capacity s \<noteq> 0"
    by (simp add: f(4) unat_eq_0 [symmetric] unat_div del: unat_eq_0)
  then show "well_formed sz s" using sz by (simp add: well_formed_def f(4))
  show "unat (capacity s) * unat sz = unat (m_size_bytes s)"
    if "unat sz dvd nat (sysconf_pagesize h)"
  proof -
    from that r(1) have "unat sz dvd unat (m_size_bytes s)" by (rule dvd_trans)
    then show ?thesis by (simp add: capacity_def f(4) unat_div)
  qed
qed

text \<open>
  Claim C3 fails on the code. For the 3-byte pixel type and a request of 1365 elements
  (4095 bytes) the region is one 4096-byte page, the smallest multiple of the page
  size that holds the request, but \<open>capacity()\<close> is \<open>4096 div 3 = 1365\<close> and
  \<open>capacity() * sizeof(T)\<close> is 4095, which is no multiple of the page size. For
  \<open>int\<close> and a request of \<open>2^62\<close> elements the product \<open>requested * sizeof(T)\<close>
  wraps to 0: the constructor succeeds with one page and capacity 1024. For an element
  type of 8192 bytes and a request of \<open>2^51\<close> elements it wraps to 0 as well, and the
  constructor succeeds with capacity 0. Lemma \<open>construct_region\<close> above proves the
  claim where the element size divides the page size and the product does not wrap.
\<close>

theorem capacity_rounding_divergence:
  "construct linux_host 3 1365 = Inr rgb_buffer
   \<and> m_size_bytes rgb_buffer = 4096
   \<and> unat (capacity rgb_buffer) * 3 = 4095
   \<and> \<not> 4096 dvd unat (capacity rgb_buffer) * 3
   \<and> (\<exists>s. construct linux_host 4 (2 ^ 62) = Inr s \<and> m_size_bytes s = 4096 \<and> capacity s = 1024)
   \<and> (\<exists>s. construct linux_host 8192 (2 ^ 51) = Inr s \<and> m_size_bytes s = 4096 \<and> capacity s = 0)"
proof -
  have "construct linux_host 4 (2 ^ 62)
      = Inr \<lparr>m_size_bytes = 4096, m_capacity = 1024, m_buffer = (\<lambda>_. 0), m_head = 0, m_tail = 0\<rparr>"
    by (simp add: construct_def linux_host_def get_page_size_def round_to_page_def)
  then have a: "\<exists>s. construct linux_host 4 (2 ^ 62) = Inr s \<and> m_size_bytes s = 4096 \<and> capacity s = 1024"
    by (simp add: capacity_def)
  have "construct linux_host 8192 (2 ^ 51)
      = Inr \<lparr>m_size_bytes = 4096, m_capacity = 0, m_buffer = (\<lambda>_. 0), m_head = 0, m_tail = 0\<rparr>"
    by (simp add: construct_def linux_host_def get_page_size_def round_to_page_def)
  then have b: "\<exists>s. construct linux_host 8192 (2 ^ 51) = Inr s \<and> m_size_bytes s = 4096 \<and> capacity s = 0"
    by (simp add: capacity_def)
  have "unat (capacity rgb_buffer) * 3 = 4095" "m_size_bytes rgb_buffer = 4096"
    by (simp_all add: capacity_def rgb_buffer_def)
  with a b show ?thesis using construct_rgb_buffer by simp
qed

section \<open>Writes longer than the capacity\<close>

lemma write_rb_out_of_bounds:
  assumes "concat data \<noteq> []"
    and "2 * unat (m_size_bytes s) < unat (m_head s mod m_capacity s) * unat sz + length (concat data)"
  shows "write_rb sz s data = None"
  using memcpy_to_oob [OF assms] by (simp add: write_rb_def)

lemma write_rb_fits:
  assumes "m_capacity s \<noteq> 0"
    and "unat (m_head s mod m_capacity s) * unat sz + length (concat data) \<le> 2 * unat (m_size_bytes s)"
  shows "\<exists>s'. write_rb sz s data = Some s' \<and> m_head s' = m_head s + of_nat (length data)
           \<and> m_tail s' = (if m_head s + of_nat (length data) - m_tail s > m_capacity s
                           then m_head s + of_nat (length data) - m_capacity s else m_tail s)"
  using memcpy_to_in_bounds [OF assms(2), of "m_buffer s"] assms(1)
  by (auto simp: write_rb_def Let_def)

lemma construct_invalid_argument_iff:
  "construct h sz requested_capacity = Inl invalid_argument \<longleftrightarrow> requested_capacity = 0"
  by (auto simp: construct_def get_page_size_def Let_def split: if_splits)

text \<open>
  Claim C4 fails on the code: \<open>write\<close> compares the length with nothing. On
  \<open>RingBuffer<int> rb(1024)\<close> a write of 2048 elements, twice the capacity, is copied
  as one block: at offset 0 it fills the reservation exactly and is accepted, and after
  one element has been written it starts at byte 4 and runs 4 bytes past the end of the
  reservation.
\<close>

theorem overlong_write_leaves_reservation:
  "(\<exists>s. write_rb 4 int_buffer (replicate 2048 (int_elem 7)) = Some s
        \<and> m_head s = 2048 \<and> m_tail s = 1024)
   \<and> (\<exists>s1. write_rb 4 int_buffer [int_elem 1] = Some s1 \<and> m_head s1 = 1 \<and> m_tail s1 = 0
         \<and> unat (m_head s1 mod m_capacity s1) * 4 + length (concat (replicate 2048 (int_elem 7)))
             = 2 * unat (m_size_bytes s1) + 4
         \<and> write_rb 4 s1 (replicate 2048 (int_elem 7)) = None)"
proof -
  have l: "length (concat (replicate 2048 (int_elem 7))) = 8192"
    using length_concat_fixed [of "replicate 2048 (int_elem 7)" 4] by (simp add: int_elem_def)
  then have ne: "concat (replicate 2048 (int_elem 7)) \<noteq> []" by auto
  have a: "\<exists>s. write_rb 4 int_buffer (replicate 2048 (int_elem 7)) = Some s
        \<and> m_head s = 2048 \<and> m_tail s = 1024"
    using write_rb_fits [of int_buffer 4 "replicate 2048 (int_elem 7)"]
    by (simp add: l) (simp add: int_buffer_def)
  from write_rb_fits [of int_buffer 4 "[int_elem 1]"] obtain s1 where
    s1: "write_rb 4 int_buffer [int_elem 1] = Some s1" "m_head s1 = 1" "m_tail s1 = 0"
    by (auto simp: int_buffer_def int_elem_def)
  from write_rb_cursors(3,4) [OF s1(1)] have f: "m_capacity s1 = 1024" "m_size_bytes s1 = 4096"
    by (simp_all add: int_buffer_def)
  have off: "unat (m_head s1 mod m_capacity s1) * 4 + length (concat (replicate 2048 (int_elem 7)))
      = 2 * unat (m_size_bytes s1) + 4"
    by (simp add: s1(2) f l)
  then have "write_rb 4 s1 (replicate 2048 (int_elem 7)) = None"
    using write_rb_out_of_bounds [OF ne, of s1 4] by simp
  with a s1 off show ?thesis by blast
qed

section \<open>Operations after construction\<close>

lemma write_rb_size_bound:
  assumes "write_rb sz s d = Some s'"
  shows "m_head s' - m_tail s' \<le> m_capacity s'"
proof -
  note c = write_rb_cursors [OF assms]
  show ?thesis
  proof (cases "m_head s' - m_tail s > m_capacity s")
    case True
    then show ?thesis by (simp add: c(2,3))
  next
    case False
    then show ?thesis by (simp add: c(2,3))
  qed
qed

lemma read_size_bound:
  assumes r: "read sz s outp = Some (s', out, n)"
    and b: "m_head s - m_tail s \<le> m_capacity s"
  shows "m_head s' - m_tail s' \<le> m_capacity s'"
proof -
  note c = read_cursors [OF r]
  have "n \<le> m_head s - m_tail s" by (simp add: c(1))
  then have "m_head s - m_tail s - n \<le> m_head s - m_tail s" by (simp add: word_sub_le)
  moreover have "m_head s' - m_tail s' = m_head s - m_tail s - n" by (simp add: c(2,3))
  ultimately show ?thesis using b by (simp add: c(4))
qed

lemma run_completes:
  assumes "well_formed sz s" "m_head s - m_tail s \<le> m_capacity s"
    and "\<forall>x\<in>set ops. admissible sz (m_capacity s) x"
  shows "\<exists>s'. run sz s ops = Some s' \<and> m_capacity s' = m_capacity s"
  using assms
proof (induction ops arbitrary: s)
  case Nil
  then show ?case by simp
next
  case (Cons x xs)
  have "\<exists>s1. step sz s x = Some s1 \<and> well_formed sz s1 \<and> m_head s1 - m_tail s1 \<le> m_capacity s1
          \<and> m_capacity s1 = m_capacity s"
  proof (cases x)
    case (Write d)
    with Cons.prems(3) have d: "elems_of sz d" "length d \<le> unat (m_capacity s)" by simp_all
    from write_rb_result [OF Cons.prems(1) d(2,1)] obtain s1 where w: "write_rb sz s d = Some s1"
      by blast
    note c = write_rb_cursors [OF w]
    have "well_formed sz s1" using Cons.prems(1) by (simp add: well_formed_cong [OF c(3,4)])
    with Write w write_rb_size_bound [OF w] c(3) show ?thesis by simp
  next
    case (Read outp)
    with Cons.prems(3) have el: "elems_of sz outp" by simp
    from read_result [OF Cons.prems(1,2) el] obtain s1 out n where
      r: "read sz s outp = Some (s1, out, n)" by blast
    note c = read_cursors [OF r]
    have "well_formed sz s1" using Cons.prems(1) by (simp add: well_formed_cong [OF c(4,5)])
    with Read r read_size_bound [OF r Cons.prems(2)] c(4) show ?thesis by simp
  next
    case Clear
    then show ?thesis using Cons.prems(1) by (simp add: clear_def well_formed_def)
  qed
  then obtain s1 where s1: "step sz s x = Some s1" "well_formed sz s1"
    "m_head s1 - m_tail s1 \<le> m_capacity s1" "m_capacity s1 = m_capacity s"
    by blast
  from Cons.prems(3) s1(4) have "\<forall>x\<in>set xs. admissible sz (m_capacity s1) x" by simp
  from Cons.IH [OF s1(2,3) this] s1(1,4) show ?case by simp
qed

text \<open>
  What holds of the constructor and the operations. The constructor fails with
  \<open>invalid_argument\<close> exactly when the requested capacity is zero; its other failures
  are \<open>system_error\<close>s of the system calls. Where the byte count
  \<open>requested_capacity * sizeof(T)\<close>, rounded up to a page, fits in \<open>size_t\<close>, the
  constructed buffer starts with \<open>m_head = m_tail = 0\<close>, and every sequence of calls
  to \<open>write\<close> with at most \<open>capacity\<close> elements, \<open>read\<close> and \<open>clear\<close> on it runs
  to the end.
\<close>

lemma construct_then_operate:
  assumes "sz \<noteq> 0" and "sysconf_pagesize h < 2 ^ 63"
    and "unat requested_capacity * unat sz + nat (sysconf_pagesize h) \<le> 2 ^ 64"
    and "list_all (admissible sz (capacity s0)) ops"
  shows "(construct h sz requested_capacity = Inl invalid_argument \<longleftrightarrow> requested_capacity = 0)
         \<and> (\<forall>e. construct h sz requested_capacity = Inl e \<and> requested_capacity \<noteq> 0
                \<longrightarrow> (\<exists>what. e = system_error what))
         \<and> (construct h sz requested_capacity = Inr s0 \<longrightarrow>
               m_head s0 = 0 \<and> m_tail s0 = 0 \<and> size_rb s0 = 0 \<and> empty_rb s0
               \<and> (\<exists>s. run sz s0 ops = Some s \<and> capacity s = capacity s0))"
proof -
  have a: "construct h sz requested_capacity = Inl invalid_argument \<longleftrightarrow> requested_capacity = 0"
    by (rule construct_invalid_argument_iff)
  have b: "\<exists>what. e = system_error what"
    if "construct h sz requested_capacity = Inl e" "requested_capacity \<noteq> 0" for e
    using that a by (cases e) auto
  have c: "m_head s0 = 0 \<and> m_tail s0 = 0 \<and> size_rb s0 = 0 \<and> empty_rb s0
               \<and> (\<exists>s. run sz s0 ops = Some s \<and> capacity s = capacity s0)"
    if c: "construct h sz requested_capacity = Inr s0"
  proof -
    note f = construct_fields [OF c]
    have wf: "well_formed sz s0" by (rule construct_region(4) [OF c assms(1-3)])
    have "m_head s0 - m_tail s0 \<le> m_capacity s0" by (simp add: f)
    moreover have "\<forall>x\<in>set ops. admissible sz (m_capacity s0) x"
      using assms(4) by (simp add: list_all_iff capacity_def)
    ultimately have "\<exists>s. run sz s0 ops = Some s \<and> capacity s = capacity s0"
      using run_completes [OF wf] by (simp add: capacity_def)
    then show ?thesis by (simp add: f size_rb_def empty_rb_def)
  qed
  from a b c show ?thesis by blast
qed

lemma zero_capacity_undefined:
  assumes "m_capacity s = 0"
  shows "write_rb sz s data = None" "read sz s outp = None"
  using assms by (simp_all add: write_rb_def read_def)

text \<open>
  Claim C7 fails on the code: not every call after a successful construction completes.
  For an element type of 8192 bytes and a request of \<open>2^51\<close> elements the byte count
  wraps to 0, the constructor succeeds with one page and capacity 0, and every
  \<open>write\<close> and \<open>read\<close>, even of an empty span, divides by zero in
  \<open>cursor % m_capacity\<close>. And on \<open>RingBuffer<int> rb(1024)\<close> a write of 2046
  elements after one of 3 elements runs past the end of the reservation. The rest of
  the claim holds: lemmas \<open>construct_invalid_argument_iff\<close>, \<open>construct_fields\<close> and
  \<open>construct_then_operate\<close> above.
\<close>

theorem operations_undefined_after_construction:
  "(\<exists>s. construct linux_host 8192 (2 ^ 51) = Inr s \<and> capacity s = 0
        \<and> m_head s = 0 \<and> m_tail s = 0
        \<and> write_rb 8192 s [] = None \<and> read 8192 s [] = None
        \<and> run 8192 s [Write []] = None \<and> run 8192 s [Read []] = None)
   \<and> (\<exists>s1. construct linux_host 4 1024 = Inr int_buffer
         \<and> write_rb 4 int_buffer (map int_elem [1, 2, 3]) = Some s1
         \<and> write_rb 4 s1 (replicate 2046 (int_elem 7)) = None)"
proof -
  have c: "construct linux_host 8192 (2 ^ 51)
      = Inr \<lparr>m_size_bytes = 4096, m_capacity = 0, m_buffer = (\<lambda>_. 0), m_head = 0, m_tail = 0\<rparr>"
    by (simp add: construct_def linux_host_def get_page_size_def round_to_page_def)
  have a: "\<exists>s. construct linux_host 8192 (2 ^ 51) = Inr s \<and> capacity s = 0
        \<and> m_head s = 0 \<and> m_tail s = 0
        \<and> write_rb 8192 s [] = None \<and> read 8192 s [] = None
        \<and> run 8192 s [Write []] = None \<and> run 8192 s [Read []] = None"
    unfolding c by (simp add: capacity_def zero_capacity_undefined)
  have l: "length (concat (replicate 2046 (int_elem 7))) = 8184"
    using length_concat_fixed [of "replicate 2046 (int_elem 7)" 4] by (simp add: int_elem_def)
  then have ne: "concat (replicate 2046 (int_elem 7)) \<noteq> []" by auto
  from write_rb_fits [of int_buffer 4 "map int_elem [1, 2, 3]"] obtain s1 where
    s1: "write_rb 4 int_buffer (map int_elem [1, 2, 3]) = Some s1" "m_head s1 = 3"
    by (auto simp: int_buffer_def int_elem_def)
  from write_rb_cursors(3,4) [OF s1(1)] have f: "m_capacity s1 = 1024" "m_size_bytes s1 = 4096"
    by (simp_all add: int_buffer_def)
  have "write_rb 4 s1 (replicate 2046 (int_elem 7)) = None"
    using write_rb_out_of_bounds [OF ne, of s1 4] by (simp add: s1(2) f l)
  with a s1(1) construct_int_buffer show ?thesis by blast
qed

section \<open>Element sizes that do not divide the region\<close>

lemma well_formed_rgb_buffer: "well_formed 3 rgb_buffer"
  by (simp add: well_formed_def rgb_buffer_def)

lemma object_at_3:
  assumes "(i + 1) * 3 \<le> 2 * unat (m_size_bytes s)"
  shows "object_at 3 s i =
           Some [m_buffer s ((i * 3) mod unat (m_size_bytes s)),
                 m_buffer s ((i * 3 + 1) mod unat (m_size_bytes s)),
                 m_buffer s ((i * 3 + 2) mod unat (m_size_bytes s))]"
proof -
  have "[0..<3] = [0, 1, 2]" by (simp add: eval_nat_numeral)
  then show ?thesis using object_at_in_bounds [of i 3 s] assms by simp
qed

text \<open>
  Claim C2 fails on the code for an element size that does not divide the region size.
  For the 3-byte pixel type the capacity is 1365 and \<open>1365 * 3 = 4095\<close>: element
  index 1365 of the region starts at byte 4095, one byte before the second mapping, and
  is not element 0. The claim's own example, 1365 elements of value 1 and then 3 of
  value 9, leaves \<open>size() = capacity()\<close>, but the read of all elements delivers
  \<open>[0, 9, 9]\<close> as the first of the final three: the padding byte 4095 of the region
  followed by the first two bytes of the element written at offset 0. Where the element
  size divides the region size the claim holds: lemma \<open>write_held\<close> below proves it
  for every such buffer, and lemma \<open>overwrite_example_int\<close> evaluates the example for
  \<open>int\<close>.
\<close>

theorem overwrite_example_corrupted:
  "\<exists>s1 s2 s3 out n.
     write_rb 3 rgb_buffer (replicate 1365 [1, 1, 1]) = Some s1
     \<and> write_rb 3 s1 (replicate 3 [9, 9, 9]) = Some s2
     \<and> size_rb s2 = capacity s2
     \<and> read 3 s2 (replicate 1365 [0, 0, 0]) = Some (s3, out, n)
     \<and> n = 1365 \<and> length out = 1365
     \<and> out ! 1362 = [0, 9, 9]"
proof -
  let ?ones = "replicate 1365 [1, 1, 1 :: byte]" and ?nines = "replicate 3 [9, 9, 9 :: byte]"
  let ?outp = "replicate 1365 [0, 0, 0 :: byte]"
  have el: "elems_of 3 ?ones" "elems_of 3 ?nines" "elems_of 3 ?outp"
    by (simp_all add: elems_of_def)
  have l1: "length (concat ?ones) = 4095"
    using length_concat_fixed [of ?ones 3] by simp
  have c9: "concat ?nines = [9, 9, 9, 9, 9, 9, 9, 9, 9]" by (simp add: eval_nat_numeral)
  \<comment> \<open>first write: 1365 elements at offset 0\<close>
  from write_rb_result [OF well_formed_rgb_buffer _ el(1)] obtain m1 where
    m1: "memcpy_to 4096 (\<lambda>_. 0) 0 (concat ?ones) = Some m1"
    and w1: "write_rb 3 rgb_buffer ?ones
               = Some (rgb_buffer\<lparr>m_buffer := m1, m_head := 1365, m_tail := 0\<rparr>)"
    by (auto simp: rgb_buffer_def)
  define s1 where "s1 = rgb_buffer\<lparr>m_buffer := m1, m_head := 1365, m_tail := 0\<rparr>"
  have f1: "m_capacity s1 = 1365" "m_size_bytes s1 = 4096" "m_head s1 = 1365" "m_tail s1 = 0"
    "m_buffer s1 = m1"
    by (simp_all add: s1_def rgb_buffer_def)
  have wf1: "well_formed 3 s1" by (simp add: well_formed_def f1)
  have pad1: "m1 4095 = 0"
    using memcpy_to_other [OF m1, of 4095] by (simp add: l1)
  \<comment> \<open>second write: 3 elements at offset \<open>1365 mod 1365 = 0\<close>\<close>
  from write_rb_result [OF wf1 _ el(2)] obtain m2 where
    m2: "memcpy_to 4096 m1 0 (concat ?nines) = Some m2"
    and w2: "write_rb 3 s1 ?nines = Some (s1\<lparr>m_buffer := m2, m_head := 1368, m_tail := 3\<rparr>)"
    by (auto simp: f1)
  define s2 where "s2 = s1\<lparr>m_buffer := m2, m_head := 1368, m_tail := 3\<rparr>"
  have f2: "m_capacity s2 = 1365" "m_size_bytes s2 = 4096" "m_head s2 = 1368" "m_tail s2 = 3"
    "m_buffer s2 = m2"
    by (simp_all add: s2_def f1)
  have wf2: "well_formed 3 s2" by (simp add: well_formed_def f2)
  have pad2: "m2 4095 = 0"
    using memcpy_to_other [OF m2, of 4095] pad1 by (simp add: c9)
  have b0: "m2 0 = 9" using memcpy_to_nth [OF m2, of 0] by (simp add: c9)
  have b1: "m2 (Suc 0) = 9" using memcpy_to_nth [OF m2, of "Suc 0"] by (simp add: c9)
  \<comment> \<open>read of 1365 elements from element index 3\<close>
  have bound: "m_head s2 - m_tail s2 \<le> m_capacity s2" by (simp add: f2)
  from read_elements [OF wf2 bound el(3)] obtain out where
    r: "read 3 s2 ?outp = Some (s2\<lparr>m_tail := m_tail s2 + 1365\<rparr>, out, 1365)"
    and len: "length out = 1365"
    and obj: "\<forall>i<1365. object_at 3 s2 (3 + i) = Some (out ! i)"
    by (auto simp: f2)
  from obj have "1362 < (1365 :: nat) \<longrightarrow> object_at 3 s2 (3 + 1362) = Some (out ! 1362)"
    by (rule spec)
  then have "object_at 3 s2 1365 = Some (out ! 1362)" by simp
  moreover have "object_at 3 s2 1365 = Some [m2 4095, m2 0, m2 1]"
    using object_at_3 [of 1365 s2] by (simp add: f2)
  ultimately have "out ! 1362 = [0, 9, 9]" by (simp add: pad2 b0 b1)
  moreover have "size_rb s2 = capacity s2" by (simp add: size_rb_def capacity_def f2)
  ultimately show ?thesis using w1 w2 r len unfolding s1_def [symmetric] s2_def [symmetric]
    by blast
qed

text \<open>
  Claim C10 fails on the code for the same reason. With both cursors at 1364, writing
  one element and then another puts the second at element 0 (bytes 0 to 2), while
  writing the two at once puts it at bytes 4095, 0 and 1. The cursors agree, the regions
  differ, and the next \<open>read\<close> of two elements returns \<open>[0, 7, 8]\<close> as the second
  element after the two writes and \<open>[7, 8, 9]\<close> after the single one. Where the
  element size divides the region size the two ways give the same state: lemma
  \<open>write_write_append\<close> below.
\<close>

theorem split_write_differs:
  "\<exists>s1 s out0 n0 sa sab sc sA outA sB outB.
     write_rb 3 rgb_buffer (replicate 1364 [5, 5, 5]) = Some s1
     \<and> read 3 s1 (replicate 1364 [0, 0, 0]) = Some (s, out0, n0)
     \<and> length [[1, 2, 3 :: byte]] + length [[7, 8, 9 :: byte]] \<le> unat (capacity s)
     \<and> write_rb 3 s [[1, 2, 3]] = Some sa \<and> write_rb 3 sa [[7, 8, 9]] = Some sab
     \<and> write_rb 3 s ([[1, 2, 3]] @ [[7, 8, 9]]) = Some sc
     \<and> m_head sab = m_head sc \<and> m_tail sab = m_tail sc
     \<and> m_buffer sab 4095 \<noteq> m_buffer sc 4095
     \<and> read 3 sab (replicate 2 [0, 0, 0]) = Some (sA, outA, 2)
     \<and> read 3 sc (replicate 2 [0, 0, 0]) = Some (sB, outB, 2)
     \<and> outA ! 1 = [0, 7, 8] \<and> outB ! 1 = [7, 8, 9]"
proof -
  let ?pad = "replicate 1364 [5, 5, 5 :: byte]" and ?outp = "replicate 1364 [0, 0, 0 :: byte]"
  let ?a = "[[1, 2, 3 :: byte]]" and ?b = "[[7, 8, 9 :: byte]]"
  let ?two = "replicate 2 [0, 0, 0 :: byte]"
  have el: "elems_of 3 ?pad" "elems_of 3 ?outp" "elems_of 3 ?a" "elems_of 3 ?b"
    "elems_of 3 (?a @ ?b)" "elems_of 3 ?two"
    by (simp_all add: elems_of_def)
  have lp: "length (concat ?pad) = 4092"
    using length_concat_fixed [of ?pad 3] by simp
  \<comment> \<open>fill 1364 elements and read them back: both cursors at 1364\<close>
  from write_rb_result [OF well_formed_rgb_buffer _ el(1)] obtain m1 where
    m1: "memcpy_to 4096 (\<lambda>_. 0) 0 (concat ?pad) = Some m1"
    and w1: "write_rb 3 rgb_buffer ?pad
               = Some (rgb_buffer\<lparr>m_buffer := m1, m_head := 1364, m_tail := 0\<rparr>)"
    by (auto simp: rgb_buffer_def)
  define s1 where "s1 = rgb_buffer\<lparr>m_buffer := m1, m_head := 1364, m_tail := 0\<rparr>"
  have f1: "m_capacity s1 = 1365" "m_size_bytes s1 = 4096" "m_head s1 = 1364" "m_tail s1 = 0"
    "m_buffer s1 = m1"
    by (simp_all add: s1_def rgb_buffer_def)
  have wf1: "well_formed 3 s1" by (simp add: well_formed_def f1)
  have pad1: "m1 4095 = 0"
    using memcpy_to_other [OF m1, of 4095] by (simp add: lp)
  have "m_head s1 - m_tail s1 \<le> m_capacity s1" by (simp add: f1)
  from read_elements [OF wf1 this el(2)] obtain out0 where
    r0: "read 3 s1 ?outp = Some (s1\<lparr>m_tail := 1364\<rparr>, out0, 1364)"
    by (auto simp: f1)
  define s where "s = s1\<lparr>m_tail := 1364\<rparr>"
  have f: "m_capacity s = 1365" "m_size_bytes s = 4096" "m_head s = 1364" "m_tail s = 1364"
    "m_buffer s = m1"
    by (simp_all add: s_def f1)
  have wf: "well_formed 3 s" by (simp add: well_formed_def f)
  \<comment> \<open>two writes of one element each\<close>
  from write_rb_result [OF wf _ el(3)] obtain ma where
    ma: "memcpy_to 4096 m1 4092 [1, 2, 3] = Some ma"
    and wa: "write_rb 3 s ?a = Some (s\<lparr>m_buffer := ma, m_head := 1365, m_tail := 1364\<rparr>)"
    by (auto simp: f)
  define sa where "sa = s\<lparr>m_buffer := ma, m_head := 1365, m_tail := 1364\<rparr>"
  have fa: "m_capacity sa = 1365" "m_size_bytes sa = 4096" "m_head sa = 1365" "m_tail sa = 1364"
    "m_buffer sa = ma"
    by (simp_all add: sa_def f)
  have wfa: "well_formed 3 sa" by (simp add: well_formed_def fa)
  from write_rb_result [OF wfa _ el(4)] obtain mab where
    mab: "memcpy_to 4096 ma 0 [7, 8, 9] = Some mab"
    and wab: "write_rb 3 sa ?b = Some (sa\<lparr>m_buffer := mab, m_head := 1366, m_tail := 1364\<rparr>)"
    by (auto simp: fa)
  define sab where "sab = sa\<lparr>m_buffer := mab, m_head := 1366, m_tail := 1364\<rparr>"
  have fab: "m_capacity sab = 1365" "m_size_bytes sab = 4096" "m_head sab = 1366"
    "m_tail sab = 1364" "m_buffer sab = mab"
    by (simp_all add: sab_def fa)
  have wfab: "well_formed 3 sab" by (simp add: well_formed_def fab)
  have "ma 4095 = 0" using memcpy_to_other [OF ma, of 4095] pad1 by simp
  then have ab4095: "mab 4095 = 0" using memcpy_to_other [OF mab, of 4095] by simp
  have ab0: "mab 0 = 7" using memcpy_to_nth [OF mab, of 0] by simp
  have ab1: "mab (Suc 0) = 8" using memcpy_to_nth [OF mab, of "Suc 0"] by simp
  \<comment> \<open>one write of the two elements\<close>
  from write_rb_result [OF wf _ el(5)] obtain mc where
    mc: "memcpy_to 4096 m1 4092 [1, 2, 3, 7, 8, 9] = Some mc"
    and wc: "write_rb 3 s (?a @ ?b) = Some (s\<lparr>m_buffer := mc, m_head := 1366, m_tail := 1364\<rparr>)"
    by (auto simp: f)
  define sc where "sc = s\<lparr>m_buffer := mc, m_head := 1366, m_tail := 1364\<rparr>"
  have fc: "m_capacity sc = 1365" "m_size_bytes sc = 4096" "m_head sc = 1366"
    "m_tail sc = 1364" "m_buffer sc = mc"
    by (simp_all add: sc_def f)
  have wfc: "well_formed 3 sc" by (simp add: well_formed_def fc)
  have c4095: "mc 4095 = 7" using memcpy_to_nth [OF mc, of 3] by simp
  have c0: "mc 0 = 8" using memcpy_to_nth [OF mc, of 4] by simp
  have c1: "mc (Suc 0) = 9" using memcpy_to_nth [OF mc, of 5] by simp
  \<comment> \<open>the next read of two elements\<close>
  have "m_head sab - m_tail sab \<le> m_capacity sab" by (simp add: fab)
  from read_elements [OF wfab this el(6)] obtain outA where
    rA: "read 3 sab ?two = Some (sab\<lparr>m_tail := 1366\<rparr>, outA, 2)"
    and oA: "\<forall>i<2. object_at 3 sab (1364 + i) = Some (outA ! i)"
    by (auto simp: fab)
  from oA have "1 < (2 :: nat) \<longrightarrow> object_at 3 sab (1364 + 1) = Some (outA ! 1)" by (rule spec)
  moreover have "object_at 3 sab 1365 = Some [mab 4095, mab 0, mab 1]"
    using object_at_3 [of 1365 sab] by (simp add: fab)
  ultimately have A: "outA ! 1 = [0, 7, 8]" by (simp add: ab4095 ab0 ab1)
  have "m_head sc - m_tail sc \<le> m_capacity sc" by (simp add: fc)
  from read_elements [OF wfc this el(6)] obtain outB where
    rB: "read 3 sc ?two = Some (sc\<lparr>m_tail := 1366\<rparr>, outB, 2)"
    and oB: "\<forall>i<2. object_at 3 sc (1364 + i) = Some (outB ! i)"
    by (auto simp: fc)
  from oB have "1 < (2 :: nat) \<longrightarrow> object_at 3 sc (1364 + 1) = Some (outB ! 1)" by (rule spec)
  moreover have "object_at 3 sc 1365 = Some [mc 4095, mc 0, mc 1]"
    using object_at_3 [of 1365 sc] by (simp add: fc)
  ultimately have B: "outB ! 1 = [7, 8, 9]" by (simp add: c4095 c0 c1)
  have "length ?a + length ?b \<le> unat (capacity s)" by (simp add: capacity_def f)
  moreover have "m_head sab = m_head sc" "m_tail sab = m_tail sc" by (simp_all add: fab fc)
  moreover have "m_buffer sab 4095 \<noteq> m_buffer sc 4095" by (simp add: fab fc ab4095 c4095)
  ultimately show ?thesis
    using w1 r0 wa wab wc rA rB A B
    unfolding s1_def [symmetric] s_def [symmetric] sa_def [symmetric] sab_def [symmetric]
      sc_def [symmetric]
    by blast
qed

lemma concat_replicate_nth:
  assumes "k < n * length x"
  shows "concat (replicate n x) ! k \<in> set x"
proof -
  have "set (concat (replicate n x)) \<subseteq> set x" by auto
  moreover have "length (concat (replicate n x)) = n * length x"
    by (induction n) auto
  ultimately show ?thesis using assms nth_mem [of k "concat (replicate n x)"] by auto
qed

lemma singleton_list:
  assumes "length xs = 1" "xs ! 0 = x"
  shows "xs = [x]"
  using assms by (cases xs) auto

text \<open>
  Claim C6 fails on the code for an element size that does not divide the region size:
  \<open>read\<close> does return \<open>min(head - tail, M)\<close> and advance \<open>m_tail\<close> by it, but what
  it copies from \<open>m_buffer + tail % m_capacity\<close> need not be the elements stored at
  the logical positions from \<open>tail\<close>. For the 3-byte pixel type, with both cursors at
  1364, one \<open>write\<close> stores \<open>[1, 2, 3]\<close> and \<open>[7, 8, 9]\<close> at bytes 4092 to 4097 of
  the reservation, so the second element lies at bytes 4095, 0 and 1 of the region. A
  \<open>read\<close> of one element returns \<open>[1, 2, 3]\<close> and moves \<open>m_tail\<close> to 1365; the next
  \<open>read\<close> of one element starts at \<open>1365 % 1365 = 0\<close> and returns bytes 0 to 2,
  \<open>[8, 9, 5]\<close>: the last two bytes of the stored element and a byte of an element read
  long before. Where the element size divides the region size \<open>read\<close> delivers the
  stored elements in order: lemma \<open>read_held\<close> below.
\<close>

theorem read_returns_unwritten_element:
  "\<exists>s1 s out0 n0 s2 s3 o1 s4 o2.
     write_rb 3 rgb_buffer (replicate 1364 [5, 5, 5]) = Some s1
     \<and> read 3 s1 (replicate 1364 [0, 0, 0]) = Some (s, out0, n0)
     \<and> write_rb 3 s [[1, 2, 3], [7, 8, 9]] = Some s2
     \<and> invariant s2 \<and> size_rb s2 = 2
     \<and> read 3 s2 [[0, 0, 0]] = Some (s3, o1, 1) \<and> o1 = [[1, 2, 3]]
     \<and> read 3 s3 [[0, 0, 0]] = Some (s4, o2, 1) \<and> o2 = [[8, 9, 5]]
     \<and> empty_rb s4"
proof -
  let ?pad = "replicate 1364 [5, 5, 5 :: byte]" and ?outp = "replicate 1364 [0, 0, 0 :: byte]"
  let ?d = "[[1, 2, 3 :: byte], [7, 8, 9]]" and ?one = "[[0, 0, 0 :: byte]]"
  have el: "elems_of 3 ?pad" "elems_of 3 ?outp" "elems_of 3 ?d" "elems_of 3 ?one"
    by (simp_all add: elems_of_def)
  have lp: "length (concat ?pad) = 4092"
    using length_concat_fixed [of ?pad 3] by simp
  \<comment> \<open>fill 1364 elements and read them back: both cursors at 1364\<close>
  from write_rb_result [OF well_formed_rgb_buffer _ el(1)] obtain m1 where
    m1: "memcpy_to 4096 (\<lambda>_. 0) 0 (concat ?pad) = Some m1"
    and w1: "write_rb 3 rgb_buffer ?pad
               = Some (rgb_buffer\<lparr>m_buffer := m1, m_head := 1364, m_tail := 0\<rparr>)"
    by (auto simp: rgb_buffer_def)
  define s1 where "s1 = rgb_buffer\<lparr>m_buffer := m1, m_head := 1364, m_tail := 0\<rparr>"
  have f1: "m_capacity s1 = 1365" "m_size_bytes s1 = 4096" "m_head s1 = 1364" "m_tail s1 = 0"
    "m_buffer s1 = m1"
    by (simp_all add: s1_def rgb_buffer_def)
  have wf1: "well_formed 3 s1" by (simp add: well_formed_def f1)
  have "concat ?pad ! 2 \<in> set [5, 5, 5 :: byte]" by (rule concat_replicate_nth) simp
  then have "concat ?pad ! 2 = 5" by simp
  moreover have "m1 ((0 + 2) mod 4096) = concat ?pad ! 2"
  proof (rule memcpy_to_nth [OF m1])
    show "length (concat ?pad) \<le> 4096" unfolding lp by simp
    show "2 < length (concat ?pad)" unfolding lp by simp
  qed
  moreover have "(0 + 2) mod 4096 = (2 :: nat)" by simp
  ultimately have old2: "m1 2 = 5" by (simp only:)
  have "m_head s1 - m_tail s1 \<le> m_capacity s1" by (simp add: f1)
  from read_elements [OF wf1 this el(2)] obtain out0 where
    r0: "read 3 s1 ?outp = Some (s1\<lparr>m_tail := 1364\<rparr>, out0, 1364)"
    by (auto simp: f1)
  define s where "s = s1\<lparr>m_tail := 1364\<rparr>"
  have f: "m_capacity s = 1365" "m_size_bytes s = 4096" "m_head s = 1364" "m_tail s = 1364"
    "m_buffer s = m1"
    by (simp_all add: s_def f1)
  have wf: "well_formed 3 s" by (simp add: well_formed_def f)
  \<comment> \<open>one write of two elements across the end of the first mapping\<close>
  from write_rb_result [OF wf _ el(3)] obtain m2 where
    m2: "memcpy_to 4096 m1 4092 [1, 2, 3, 7, 8, 9] = Some m2"
    and w2: "write_rb 3 s ?d = Some (s\<lparr>m_buffer := m2, m_head := 1366, m_tail := 1364\<rparr>)"
    by (auto simp: f)
  define s2 where "s2 = s\<lparr>m_buffer := m2, m_head := 1366, m_tail := 1364\<rparr>"
  have f2: "m_capacity s2 = 1365" "m_size_bytes s2 = 4096" "m_head s2 = 1366"
    "m_tail s2 = 1364" "m_buffer s2 = m2"
    by (simp_all add: s2_def f)
  have wf2: "well_formed 3 s2" by (simp add: well_formed_def f2)
  have inv2: "invariant s2" "size_rb s2 = 2" by (simp_all add: invariant_def size_rb_def f2)
  have b4092: "m2 4092 = 1" using memcpy_to_nth [OF m2, of 0] by simp
  have b4093: "m2 4093 = 2" using memcpy_to_nth [OF m2, of 1] by simp
  have b4094: "m2 4094 = 3" using memcpy_to_nth [OF m2, of 2] by simp
  have b0: "m2 0 = 8" using memcpy_to_nth [OF m2, of 4] by simp
  have b1: "m2 (Suc 0) = 9" using memcpy_to_nth [OF m2, of 5] by simp
  have "(4092 + k) mod 4096 \<noteq> (2 :: nat)" if "k < 6" for k
  proof (cases "k < 4")
    case True
    then have "(4092 + k) mod 4096 = 4092 + k" by simp
    then show ?thesis by simp
  next
    case False
    with that have "k = 4 \<or> k = 5" by auto
    then show ?thesis by auto
  qed
  then have "m2 2 = m1 2" by (intro memcpy_to_other [OF m2]) simp
  then have b2: "m2 2 = 5" by (simp only: old2)
  \<comment> \<open>the first read of one element\<close>
  have "m_head s2 - m_tail s2 \<le> m_capacity s2" by (simp add: f2)
  from read_elements [OF wf2 this el(4)] obtain o1 where
    r1: "read 3 s2 ?one = Some (s2\<lparr>m_tail := 1365\<rparr>, o1, 1)"
    and l1: "length o1 = 1"
    and e1: "\<forall>i<1. object_at 3 s2 (1364 + i) = Some (o1 ! i)"
    by (auto simp: f2)
  from e1 have "object_at 3 s2 1364 = Some (o1 ! 0)" by simp
  moreover have "object_at 3 s2 1364 = Some [m2 4092, m2 4093, m2 4094]"
    using object_at_3 [of 1364 s2] by (simp add: f2)
  ultimately have "o1 ! 0 = [1, 2, 3]" by (simp add: b4092 b4093 b4094)
  with l1 have o1: "o1 = [[1, 2, 3]]" by (rule singleton_list)
  define s3 where "s3 = s2\<lparr>m_tail := 1365\<rparr>"
  have f3: "m_capacity s3 = 1365" "m_size_bytes s3 = 4096" "m_head s3 = 1366"
    "m_tail s3 = 1365" "m_buffer s3 = m2"
    by (simp_all add: s3_def f2)
  have wf3: "well_formed 3 s3" by (simp add: well_formed_def f3)
  \<comment> \<open>the second read of one element\<close>
  have "m_head s3 - m_tail s3 \<le> m_capacity s3" by (simp add: f3)
  from read_elements [OF wf3 this el(4)] obtain o2 where
    r2: "read 3 s3 ?one = Some (s3\<lparr>m_tail := 1366\<rparr>, o2, 1)"
    and l2: "length o2 = 1"
    and e2: "\<forall>i<1. object_at 3 s3 (0 + i) = Some (o2 ! i)"
    by (auto simp: f3)
  from e2 have "object_at 3 s3 0 = Some (o2 ! 0)" by simp
  moreover have "object_at 3 s3 0 = Some [m2 0, m2 (Suc 0), m2 (Suc (Suc 0))]"
    using object_at_3 [of 0 s3] by (simp add: f3)
  moreover have "m2 (Suc (Suc 0)) = 5" using b2 by (simp only: numeral_2_eq_2)
  ultimately have "o2 ! 0 = [8, 9, 5]" by (simp add: b0 b1)
  with l2 have o2: "o2 = [[8, 9, 5]]" by (rule singleton_list)
  have "empty_rb (s3\<lparr>m_tail := 1366\<rparr>)" by (simp add: empty_rb_def f3)
  with w1 r0 w2 inv2 r1 o1 r2 o2 show ?thesis
    unfolding s1_def [symmetric] s_def [symmetric] s2_def [symmetric] s3_def [symmetric]
    by blast
qed

section \<open>Copies that meet at the wrap\<close>

lemma div_sub_mult:
  fixes a k n :: nat
  assumes "0 < n"
  shows "(a - k * n) div n = a div n - k"
proof (cases "k * n \<le> a")
  case True
  then obtain b where "a = k * n + b" using le_Suc_ex by blast
  with assms show ?thesis by simp
next
  case False
  then have "a div n < k" using assms by (simp add: div_less_iff_less_mult)
  with False show ?thesis by simp
qed

lemma chunks_drop:
  assumes "0 < n"
  shows "chunks n (drop (k * n) xs) = drop k (chunks n xs)"
proof (rule nth_equalityI)
  show len: "length (chunks n (drop (k * n) xs)) = length (drop k (chunks n xs))"
    by (simp add: chunks_def div_sub_mult [OF assms])
  fix i assume "i < length (chunks n (drop (k * n) xs))"
  with len have i: "i < length xs div n - k" by (simp add: chunks_def)
  then have "k + i < length xs div n" by simp
  then show "chunks n (drop (k * n) xs) ! i = drop k (chunks n xs) ! i"
    using i len by (simp add: chunks_def div_sub_mult [OF assms] add_mult_distrib add.commute)
qed

lemma memcpy_to_offset_mod:
  assumes "0 < R" "v + length bs \<le> 2 * R" "v' + length bs \<le> 2 * R" "v mod R = v' mod R"
  shows "memcpy_to R m v bs = memcpy_to R m v' bs"
  using assms
proof (induction bs arbitrary: m v v')
  case Nil
  then show ?case by simp
next
  case (Cons b bs)
  then have "v < 2 * R" "v' < 2 * R" by simp_all
  moreover have "Suc v mod R = Suc v' mod R" using Cons.prems(4) by (metis mod_Suc)
  ultimately show ?case using Cons.prems Cons.IH [of "Suc v" "Suc v'"]
    by (simp add: translate_mod)
qed

lemma memcpy_to_append:
  "memcpy_to R m v (as @ bs) =
     (case memcpy_to R m v as of None \<Rightarrow> None | Some m' \<Rightarrow> memcpy_to R m' (v + length as) bs)"
  by (induction as arbitrary: m v) (auto split: option.splits)

lemma tail_after_two_writes:
  fixes h t c a b :: size_t
  assumes "t \<le> h" "h - t \<le> c" "unat h + unat a + unat b < 2 ^ 64"
  shows "(if h + a + b - (if h + a - t > c then h + a - c else t) > c then h + a + b - c
          else (if h + a - t > c then h + a - c else t))
       = (if h + (a + b) - t > c then h + (a + b) - c else t)"
proof -
  have ha: "unat (h + a) = unat h + unat a"
    using assms(3) by (simp add: unat_add_lem [THEN iffD1])
  have hab: "unat (h + a + b) = unat h + unat a + unat b"
    using assms(3) ha by (simp add: unat_add_lem [THEN iffD1])
  have t: "unat t \<le> unat h" using assms(1) by (simp add: word_le_nat_alt)
  have d1: "unat (h + a - t) = unat h + unat a - unat t"
    using t ha by (simp add: unat_sub word_le_nat_alt)
  have d2: "unat (h + a + b - t) = unat h + unat a + unat b - unat t"
    using t hab by (simp add: unat_sub word_le_nat_alt)
  have n: "unat h - unat t \<le> unat c"
    using assms(1,2) by (simp add: word_le_nat_alt unat_sub)
  show ?thesis
  proof (cases "h + a - t > c")
    case True
    then have 1: "unat c < unat h + unat a - unat t" by (simp add: word_less_nat_alt d1)
    then have ch: "c \<le> h + a" by (simp add: word_le_nat_alt ha)
    have u: "unat (h + a - c) = unat h + unat a - unat c" using ch ha by (simp add: unat_sub)
    have le: "h + a - c \<le> h + a + b" by (simp add: word_le_nat_alt u hab)
    have "unat (h + a + b - (h + a - c)) = unat (h + a + b) - unat (h + a - c)"
      by (rule unat_sub [OF le])
    also have "\<dots> = unat b + unat c" using 1 unfolding u hab by linarith
    finally have "unat (h + a + b - (h + a - c)) = unat b + unat c" .
    then have "(h + a + b - (h + a - c) > c) = (b \<noteq> 0)"
      by (simp add: word_less_nat_alt unat_gt_0)
    moreover have "h + (a + b) - t > c" using 1 by (simp add: word_less_nat_alt add.assoc [symmetric] d2)
    ultimately show ?thesis using True by (auto simp: add.assoc)
  next
    case False
    then show ?thesis by (simp add: add.assoc)
  qed
qed

lemma aligned_offset:
  assumes al: "aligned sz s"
  shows "(unat (i mod m_capacity s) * unat sz) mod unat (m_size_bytes s)
       = (unat i * unat sz) mod unat (m_size_bytes s)"
proof -
  have "unat (i mod m_capacity s) * unat sz = (unat i mod unat (m_capacity s)) * unat sz"
    by (simp only: unat_mod)
  also have "\<dots> = (unat i * unat sz) mod (unat (m_capacity s) * unat sz)"
    by (rule mult_mod_left)
  also have "\<dots> = (unat i * unat sz) mod unat (m_size_bytes s)"
    using al by (simp only: aligned_def)
  finally show ?thesis by simp
qed

section \<open>Splitting a write, for element sizes that divide the region\<close>

lemma write_write_append:
  assumes wf: "well_formed sz s" and al: "aligned sz s" and inv: "invariant s"
    and el: "elems_of sz a" "elems_of sz b"
    and len: "length a + length b \<le> unat (m_capacity s)"
    and nowrap: "unat (m_head s) + length a + length b < 2 ^ 64"
  shows "\<exists>s1 s2. write_rb sz s a = Some s1 \<and> write_rb sz s1 b = Some s2
           \<and> write_rb sz s (a @ b) = Some s2"
proof -
  let ?R = "unat (m_size_bytes s)" and ?z = "unat sz" and ?c = "m_capacity s"
  let ?La = "of_nat (length a) :: size_t" and ?Lb = "of_nat (length b) :: size_t"
  let ?t1 = "if m_head s + ?La - m_tail s > ?c then m_head s + ?La - ?c else m_tail s"
  let ?t2 = "if m_head s + ?La + ?Lb - ?t1 > ?c then m_head s + ?La + ?Lb - ?c else ?t1"
  let ?tc = "if m_head s + (?La + ?Lb) - m_tail s > ?c then m_head s + (?La + ?Lb) - ?c
             else m_tail s"
  from len have la: "length a \<le> unat ?c" and lb: "length b \<le> unat ?c" by simp_all
  have ua: "unat ?La = length a" and ub: "unat ?Lb = length b"
    by (rule unat_of_nat_le [OF la], rule unat_of_nat_le [OF lb])
  have elab: "elems_of sz (a @ b)" using el by (auto simp: elems_of_def)
  have lab: "length (a @ b) \<le> unat ?c" using len by simp
  have ca: "length (concat a) = length a * ?z"
    by (rule length_concat_fixed [OF elems_of_Ball [OF el(1)]])
  have cb: "length (concat b) = length b * ?z"
    by (rule length_concat_fixed [OF elems_of_Ball [OF el(2)]])
  from write_rb_result [OF wf la el(1)] obtain ma where
    ma: "memcpy_to ?R (m_buffer s) (unat (m_head s mod ?c) * ?z) (concat a) = Some ma"
    and wa: "write_rb sz s a = Some (s\<lparr>m_buffer := ma, m_head := m_head s + ?La, m_tail := ?t1\<rparr>)"
    by blast
  define s1 where "s1 = s\<lparr>m_buffer := ma, m_head := m_head s + ?La, m_tail := ?t1\<rparr>"
  have f1: "m_capacity s1 = ?c" "m_size_bytes s1 = m_size_bytes s" "m_buffer s1 = ma"
    "m_head s1 = m_head s + ?La" "m_tail s1 = ?t1"
    by (simp_all add: s1_def)
  have wf1: "well_formed sz s1" using wf by (simp add: well_formed_def f1(1,2))
  have lb1: "length b \<le> unat (m_capacity s1)" using lb by (simp only: f1(1))
  from write_rb_result [OF wf1 lb1 el(2)] obtain mab where
    mab: "memcpy_to ?R ma (unat ((m_head s + ?La) mod ?c) * ?z) (concat b) = Some mab"
    and wab: "write_rb sz s1 b = Some (s1\<lparr>m_buffer := mab, m_head := m_head s + ?La + ?Lb,
                                          m_tail := ?t2\<rparr>)"
    unfolding f1 by blast
  from write_rb_result [OF wf lab elab] obtain mc where
    mc: "memcpy_to ?R (m_buffer s) (unat (m_head s mod ?c) * ?z) (concat a @ concat b) = Some mc"
    and wc: "write_rb sz s (a @ b) = Some (s\<lparr>m_buffer := mc, m_head := m_head s + (?La + ?Lb),
                                            m_tail := ?tc\<rparr>)"
    unfolding concat_append length_append of_nat_add by blast
  \<comment> \<open>the second copy starts where the first one ended, modulo the region size\<close>
  have "0 < unat ?c * ?z" using well_formed_pos [OF wf] by simp
  with well_formed_bound [OF wf] have R: "0 < ?R" by linarith
  have "unat (m_head s) + unat ?La < 2 ^ LENGTH(64)" using nowrap by (simp add: ua)
  then have "unat (m_head s + ?La) = unat (m_head s) + unat ?La"
    by (rule unat_add_lem [THEN iffD1])
  then have uh: "unat (m_head s + ?La) = unat (m_head s) + length a" by (simp only: ua)
  have "(unat ((m_head s + ?La) mod ?c) * ?z) mod ?R = ((unat (m_head s) + length a) * ?z) mod ?R"
    by (simp only: aligned_offset [OF al] uh)
  also have "\<dots> = (unat (m_head s) * ?z mod ?R + length a * ?z) mod ?R"
    by (simp only: add_mult_distrib mod_add_left_eq)
  also have "\<dots> = (unat (m_head s mod ?c) * ?z mod ?R + length a * ?z) mod ?R"
    by (simp only: aligned_offset [OF al])
  also have "\<dots> = (unat (m_head s mod ?c) * ?z + length (concat a)) mod ?R"
    by (simp only: ca mod_add_left_eq)
  finally have same: "(unat ((m_head s + ?La) mod ?c) * ?z) mod ?R
      = (unat (m_head s mod ?c) * ?z + length (concat a)) mod ?R" .
  have b1: "unat ((m_head s + ?La) mod ?c) * ?z + length (concat b) \<le> 2 * ?R"
    unfolding cb by (rule offset_in_bounds [OF wf lb])
  have "unat (m_head s mod ?c) * ?z + length (a @ b) * ?z \<le> 2 * ?R"
    by (rule offset_in_bounds [OF wf lab])
  then have b2: "unat (m_head s mod ?c) * ?z + length (concat a) + length (concat b) \<le> 2 * ?R"
    by (simp only: ca cb add_mult_distrib length_append add.assoc)
  have "memcpy_to ?R ma (unat (m_head s mod ?c) * ?z + length (concat a)) (concat b) = Some mab"
    using memcpy_to_offset_mod [OF R b1 b2 same, of ma] mab by simp
  with mc ma have "mc = mab" by (simp only: memcpy_to_append option.case option.inject)
  \<comment> \<open>the cursors\<close>
  from inv have i: "m_tail s \<le> m_head s" "m_head s - m_tail s \<le> ?c"
    by (simp_all add: invariant_def)
  have nw: "unat (m_head s) + unat ?La + unat ?Lb < 2 ^ 64" using nowrap by (simp only: ua ub)
  have t: "?t2 = ?tc" by (rule tail_after_two_writes [OF i nw])
  have "s\<lparr>m_buffer := mc, m_head := m_head s + (?La + ?Lb), m_tail := ?tc\<rparr>
      = s1\<lparr>m_buffer := mab, m_head := m_head s + ?La + ?Lb, m_tail := ?t2\<rparr>"
    unfolding t \<open>mc = mab\<close> s1_def by (simp add: add.assoc)
  with wc have "write_rb sz s (a @ b)
      = Some (s1\<lparr>m_buffer := mab, m_head := m_head s + ?La + ?Lb, m_tail := ?t2\<rparr>)"
    by (simp only:)
  with wa wab show ?thesis unfolding s1_def [symmetric] by blast
qed

section \<open>What the buffer holds after a write, for element sizes that divide the region\<close>

lemma memcpy_to_nth_mod:
  assumes "memcpy_to R m v D = Some m'" "length D \<le> R" "j < length D" "v mod R = H mod R"
  shows "m' ((H + j) mod R) = D ! j"
proof -
  have "(H + j) mod R = (v + j) mod R" using assms(4) by (metis mod_add_left_eq)
  then show ?thesis using memcpy_to_nth [OF assms(1-3)] by simp
qed

lemma memcpy_to_other_mod:
  assumes cp: "memcpy_to R m v D = Some m'" and v: "v mod R = H mod R"
    and g: "g < H" "H + length D - g \<le> R"
  shows "m' (g mod R) = m (g mod R)"
proof (rule memcpy_to_other [OF cp])
  fix j assume j: "j < length D"
  have "(g + 0) mod R \<noteq> (g + (H + j - g)) mod R"
    using g j by (intro mod_inj_window) auto
  moreover have "g + (H + j - g) = H + j" using g by simp
  moreover have "(H + j) mod R = (v + j) mod R" using v by (metis mod_add_left_eq)
  ultimately show "(v + j) mod R \<noteq> g mod R" by auto
qed

lemma bytes_after_copy:
  assumes cp: "memcpy_to R m v D = Some m'" and v: "v mod R = H mod R"
    and T: "T \<le> T'" "T' \<le> H" and fit: "H + length D - T' \<le> R"
  shows "map (\<lambda>k. m' ((T' + k) mod R)) [0..<H + length D - T']
       = drop (T' - T) (map (\<lambda>k. m ((T + k) mod R)) [0..<H - T] @ D)"
proof (rule nth_equalityI)
  show "length (map (\<lambda>k. m' ((T' + k) mod R)) [0..<H + length D - T'])
      = length (drop (T' - T) (map (\<lambda>k. m ((T + k) mod R)) [0..<H - T] @ D))"
    using T by simp
  fix k assume "k < length (map (\<lambda>k. m' ((T' + k) mod R)) [0..<H + length D - T'])"
  then have k: "k < H + length D - T'" by simp
  from T fit have D: "length D \<le> R" by simp
  let ?B = "map (\<lambda>k. m ((T + k) mod R)) [0..<H - T]"
  have lhs: "map (\<lambda>k. m' ((T' + k) mod R)) [0..<H + length D - T'] ! k = m' ((T' + k) mod R)"
    using k by simp
  have "T' - T \<le> length (?B @ D)" using T by simp
  then have rhs: "drop (T' - T) (?B @ D) ! k = (?B @ D) ! (T' - T + k)" by (rule nth_drop)
  show "map (\<lambda>k. m' ((T' + k) mod R)) [0..<H + length D - T'] ! k = drop (T' - T) (?B @ D) ! k"
  proof (cases "T' + k < H")
    case True
    then have same: "m' ((T' + k) mod R) = m ((T' + k) mod R)"
      using fit by (intro memcpy_to_other_mod [OF cp v]) auto
    from True T have i: "T' - T + k < H - T" and e: "T + (T' - T + k) = T' + k" by auto
    from i have "(?B @ D) ! (T' - T + k) = ?B ! (T' - T + k)" by (simp add: nth_append)
    also from i have "\<dots> = m ((T + (T' - T + k)) mod R)" by simp
    finally have "(?B @ D) ! (T' - T + k) = m ((T' + k) mod R)" by (simp only: e)
    with same show ?thesis by (simp only: lhs rhs)
  next
    case False
    then have j: "T' + k - H < length D" "H + (T' + k - H) = T' + k" using k by auto
    have new: "m' ((T' + k) mod R) = D ! (T' + k - H)"
      using memcpy_to_nth_mod [OF cp D j(1) v] by (simp only: j(2))
    from False T have i: "\<not> T' - T + k < length ?B"
      and e: "T' - T + k - length ?B = T' + k - H" by auto
    from i have "(?B @ D) ! (T' - T + k) = D ! (T' - T + k - length ?B)" by (simp only: nth_append if_False)
    then have "(?B @ D) ! (T' - T + k) = D ! (T' + k - H)" by (simp only: e)
    with new show ?thesis by (simp only: lhs rhs)
  qed
qed

lemma held_bytes:
  assumes wf: "well_formed sz s" and bound: "m_head s - m_tail s \<le> m_capacity s"
  shows "held sz s =
           chunks (unat sz)
             (map (\<lambda>k. m_buffer s ((unat (m_tail s mod m_capacity s) * unat sz + k)
                                     mod unat (m_size_bytes s)))
                  [0..<unat (m_head s - m_tail s) * unat sz])"
proof -
  let ?n = "unat (m_head s - m_tail s)"
  let ?outp = "replicate ?n (replicate (unat sz) (0 :: byte))"
  have el: "elems_of sz ?outp" by (simp add: elems_of_def)
  have tc: "min (m_head s - m_tail s) (of_nat (length ?outp)) = m_head s - m_tail s" by simp
  from read_result [OF wf bound el]
  have "read sz s ?outp =
      Some (s\<lparr>m_tail := m_tail s + (m_head s - m_tail s)\<rparr>,
            chunks (unat sz)
              (map (\<lambda>k. m_buffer s ((unat (m_tail s mod m_capacity s) * unat sz + k)
                                      mod unat (m_size_bytes s)))
                   [0..<?n * unat sz]) @ drop ?n ?outp,
            m_head s - m_tail s)"
    unfolding tc .
  then show ?thesis by (simp add: held_def size_rb_def)
qed

lemma held_bytes_aligned:
  assumes wf: "well_formed sz s" and al: "aligned sz s" and inv: "invariant s"
  shows "held sz s =
           chunks (unat sz)
             (map (\<lambda>k. m_buffer s ((unat (m_tail s) * unat sz + k) mod unat (m_size_bytes s)))
                  [0..<unat (m_head s) * unat sz - unat (m_tail s) * unat sz])"
proof -
  from inv have i: "m_tail s \<le> m_head s" "m_head s - m_tail s \<le> m_capacity s"
    by (simp_all add: invariant_def)
  have n: "unat (m_head s - m_tail s) * unat sz = unat (m_head s) * unat sz - unat (m_tail s) * unat sz"
    by (simp add: unat_sub [OF i(1)] diff_mult_distrib)
  have "(unat (m_tail s mod m_capacity s) * unat sz + k) mod unat (m_size_bytes s)
      = (unat (m_tail s) * unat sz + k) mod unat (m_size_bytes s)" for k
    using aligned_offset [OF al, of "m_tail s"] by (metis mod_add_left_eq)
  then show ?thesis unfolding held_bytes [OF wf i(2)] n by simp
qed

lemma length_held:
  assumes wf: "well_formed sz s" and bound: "m_head s - m_tail s \<le> m_capacity s"
  shows "length (held sz s) = unat (size_rb s)"
  unfolding held_bytes [OF wf bound]
  using well_formed_pos(1) [OF wf] by (simp add: chunks_length size_rb_def)

lemma write_held:
  assumes wf: "well_formed sz s" and al: "aligned sz s" and inv: "invariant s"
    and el: "elems_of sz data" and len: "length data \<le> unat (m_capacity s)"
    and nowrap: "unat (m_head s) + length data < 2 ^ 64"
  shows "\<exists>s'. write_rb sz s data = Some s' \<and> invariant s'
           \<and> held sz s' = drop (length (held sz s) + length data - unat (m_capacity s))
                                (held sz s @ data)"
proof -
  let ?R = "unat (m_size_bytes s)" and ?z = "unat sz" and ?c = "unat (m_capacity s)"
  let ?h = "unat (m_head s)" and ?t = "unat (m_tail s)" and ?L = "length data"
  let ?d = "(?h - ?t) + ?L - ?c"
  let ?D = "concat data"
  let ?B = "map (\<lambda>k. m_buffer s ((?t * ?z + k) mod ?R)) [0..<?h * ?z - ?t * ?z]"
  have z: "0 < ?z" by (rule well_formed_pos(1) [OF wf])
  from inv have i: "m_tail s \<le> m_head s" "m_head s - m_tail s \<le> m_capacity s"
    by (simp_all add: invariant_def)
  have th: "?t \<le> ?h" using i(1) by (simp add: word_le_nat_alt)
  have n: "?h - ?t \<le> ?c" using i by (simp add: word_le_nat_alt unat_sub)
  have lD: "length ?D = ?L * ?z" by (rule length_concat_fixed [OF elems_of_Ball [OF el]])
  from write_rb_result [OF wf len el] obtain m' s' where
    cp: "memcpy_to ?R (m_buffer s) (unat (m_head s mod m_capacity s) * ?z) ?D = Some m'"
    and w: "write_rb sz s data = Some s'" and mb: "m_buffer s' = m'"
    by auto
  note c = write_rb_cursors [OF w] and iv = write_rb_invariant [OF w inv nowrap]
  have wf': "well_formed sz s'" using wf by (simp add: well_formed_cong [OF c(3,4)])
  have al': "aligned sz s'" using al by (simp add: aligned_def c(3,4))
  \<comment> \<open>the cursors as numbers\<close>
  have uL: "unat (of_nat ?L :: size_t) = ?L" by (rule unat_of_nat_le [OF len])
  have h': "unat (m_head s') = ?h + ?L" by (rule iv(4))
  have t': "unat (m_tail s') = ?t + ?d"
  proof (cases "m_head s' - m_tail s > m_capacity s")
    case True
    from iv(2) i(1) have "m_tail s \<le> m_head s'" by simp
    with True have gt: "?c < ?h + ?L - ?t" by (simp add: word_less_nat_alt unat_sub h')
    then have "m_capacity s \<le> m_head s'" by (simp add: word_le_nat_alt h')
    then have "unat (m_head s' - m_capacity s) = ?h + ?L - ?c" by (simp add: unat_sub h')
    with True gt th show ?thesis by (simp add: c(2))
  next
    case False
    from iv(2) i(1) have "m_tail s \<le> m_head s'" by simp
    with False have "?h + ?L - ?t \<le> ?c" by (simp add: word_less_nat_alt unat_sub h' not_less)
    with False th show ?thesis by (simp add: c(2))
  qed
  have d: "?d \<le> ?h - ?t" using len by simp
  \<comment> \<open>the bytes between the cursors\<close>
  have v: "(unat (m_head s mod m_capacity s) * ?z) mod ?R = (?h * ?z) mod ?R"
    by (rule aligned_offset [OF al])
  from d th have "?t + ?d \<le> ?h" by linarith
  then have T: "?t * ?z \<le> (?t + ?d) * ?z" "(?t + ?d) * ?z \<le> ?h * ?z"
    by (simp_all only: mult_le_mono1 le_add1)
  have "?h + ?L - (?t + ?d) \<le> ?c" using th n by simp
  then have "(?h + ?L - (?t + ?d)) * ?z \<le> ?c * ?z" by (rule mult_le_mono1)
  then have fit: "?h * ?z + length ?D - (?t + ?d) * ?z \<le> ?R"
    using al by (simp add: aligned_def lD diff_mult_distrib add_mult_distrib)
  have window: "map (\<lambda>k. m' (((?t + ?d) * ?z + k) mod ?R)) [0..<?h * ?z + length ?D - (?t + ?d) * ?z]
      = drop ((?t + ?d) * ?z - ?t * ?z) (?B @ ?D)"
    by (rule bytes_after_copy [OF cp v T fit])
  have dz: "(?t + ?d) * ?z - ?t * ?z = ?d * ?z" by (simp add: add_mult_distrib)
  have lB: "length ?B = (?h - ?t) * ?z" by (simp add: diff_mult_distrib)
  have e: "(?h + ?L) * ?z = ?h * ?z + length ?D" by (simp add: add_mult_distrib lD)
  have "held sz s' = chunks ?z (map (\<lambda>k. m' (((?t + ?d) * ?z + k) mod ?R))
                                   [0..<(?h + ?L) * ?z - (?t + ?d) * ?z])"
    unfolding held_bytes_aligned [OF wf' al' iv(1)] h' t' mb c(4) ..
  also have "\<dots> = chunks ?z (drop ((?t + ?d) * ?z - ?t * ?z) (?B @ ?D))"
    unfolding e window ..
  also have "\<dots> = chunks ?z (drop (?d * ?z) (?B @ ?D))"
    unfolding dz ..
  also have "\<dots> = drop ?d (chunks ?z ?B @ chunks ?z ?D)"
    by (simp only: chunks_drop [OF z] chunks_append [OF z lB])
  also have "chunks ?z ?D = data" by (rule chunks_concat [OF z elems_of_Ball [OF el]])
  also have "chunks ?z ?B = held sz s" by (rule held_bytes_aligned [OF wf al inv, symmetric])
  finally have "held sz s' = drop ?d (held sz s @ data)" .
  moreover have "length (held sz s) = ?h - ?t"
    by (simp add: length_held [OF wf i(2)] size_rb_def unat_sub [OF i(1)])
  ultimately show ?thesis using w iv(1) by simp
qed

lemma overwrite_example_int:
  "\<exists>s1 s2. write_rb 4 int_buffer (replicate 1024 (int_elem 1)) = Some s1
     \<and> write_rb 4 s1 (replicate 3 (int_elem 9)) = Some s2
     \<and> held 4 s2 = replicate 1021 (int_elem 1) @ replicate 3 (int_elem 9)"
proof -
  let ?ones = "replicate 1024 (int_elem 1)" and ?nines = "replicate 3 (int_elem 9)"
  have wf: "well_formed 4 int_buffer" and al: "aligned 4 int_buffer" and inv: "invariant int_buffer"
    by (simp_all add: well_formed_def aligned_def invariant_def int_buffer_def)
  have el: "elems_of 4 ?ones" "elems_of 4 ?nines" by (simp_all add: elems_of_def int_elem_def)
  have h0: "held 4 int_buffer = []"
    using length_held [OF wf] by (simp add: size_rb_def int_buffer_def)
  from write_held [OF wf al inv el(1)] obtain s1 where
    s1: "write_rb 4 int_buffer ?ones = Some s1" "invariant s1" "held 4 s1 = ?ones"
    by (auto simp: h0 int_buffer_def)
  note c = write_rb_cursors [OF s1(1)]
  have f: "m_capacity s1 = 1024" "m_size_bytes s1 = 4096" "m_head s1 = 1024"
    using c by (simp_all add: int_buffer_def)
  have wf1: "well_formed 4 s1" and al1: "aligned 4 s1"
    by (simp_all add: well_formed_def aligned_def f)
  from write_held [OF wf1 al1 s1(2) el(2)] obtain s2 where
    s2: "write_rb 4 s1 ?nines = Some s2" "held 4 s2 = drop 3 (?ones @ ?nines)"
    by (auto simp: f s1(3))
  have "drop 3 (?ones @ ?nines) = replicate 1021 (int_elem 1) @ ?nines" by simp
  with s1(1) s2 show ?thesis by auto
qed

section \<open>What a read delivers and leaves, for element sizes that divide the region\<close>

lemma chunks_take:
  assumes "0 < n"
  shows "chunks n (take (k * n) xs) = take k (chunks n xs)"
proof (rule nth_equalityI)
  have "min (length xs) (k * n) div n = min (length xs div n) k"
  proof (cases "length xs \<le> k * n")
    case True
    then have "length xs div n \<le> k * n div n" by (rule div_le_mono)
    with True assms show ?thesis by simp
  next
    case False
    then have "k * n \<le> length xs" by simp
    then have "k \<le> length xs div n" using assms by (simp add: less_eq_div_iff_mult_less_eq)
    with False assms show ?thesis by simp
  qed
  then show len: "length (chunks n (take (k * n) xs)) = length (take k (chunks n xs))"
    by (simp add: chunks_def)
  fix i assume "i < length (chunks n (take (k * n) xs))"
  with len have i: "i < length xs div n" "i < k" by (simp_all add: chunks_def)
  from i(2) have "Suc i * n \<le> k * n" by (intro mult_le_mono1) simp
  then have "n \<le> k * n - i * n" by simp
  then have "take n (drop (i * n) (take (k * n) xs)) = take n (drop (i * n) xs)"
    by (simp add: drop_take min_def)
  moreover have "i < length (take (k * n) xs) div n" using i len by (simp add: chunks_def)
  ultimately show "chunks n (take (k * n) xs) ! i = take k (chunks n xs) ! i"
    using i by (simp add: chunks_nth del: length_take)
qed

lemma map_upt_shift:
  "map f [a..<b] = map (\<lambda>k. f (a + k)) [0..<b - a]"
  by (rule nth_equalityI) auto

lemma read_held:
  assumes wf: "well_formed sz s" and al: "aligned sz s" and inv: "invariant s"
    and el: "elems_of sz outp" and M: "length outp < 2 ^ 64"
  shows "\<exists>s' n. read sz s outp = Some (s', take (unat n) (held sz s) @ drop (unat n) outp, n)
           \<and> unat n = min (length (held sz s)) (length outp)
           \<and> invariant s' \<and> held sz s' = drop (unat n) (held sz s)"
proof -
  let ?R = "unat (m_size_bytes s)" and ?z = "unat sz"
  let ?h = "unat (m_head s)" and ?t = "unat (m_tail s)"
  define n where "n = min (m_head s - m_tail s) (of_nat (length outp))"
  define s' where "s' = s\<lparr>m_tail := m_tail s + n\<rparr>"
  let ?g = "\<lambda>k. m_buffer s ((?t * ?z + k) mod ?R)"
  have z: "0 < ?z" by (rule well_formed_pos(1) [OF wf])
  from inv have i: "m_tail s \<le> m_head s" "m_head s - m_tail s \<le> m_capacity s"
    by (simp_all add: invariant_def)
  have th: "?t \<le> ?h" using i(1) by (simp add: word_le_nat_alt)
  have N: "unat (m_head s - m_tail s) = ?h - ?t" by (rule unat_sub [OF i(1)])
  from M have "length outp < 2 ^ LENGTH(64)" by simp
  then have uM: "unat (of_nat (length outp) :: size_t) = length outp" by (simp add: unat_of_nat)
  have un: "unat n = min (?h - ?t) (length outp)"
    unfolding n_def by (simp add: min_def word_le_nat_alt uM N)
  then have nN: "unat n \<le> ?h - ?t" by simp
  have off: "(unat (m_tail s mod m_capacity s) * ?z + k) mod ?R = (?t * ?z + k) mod ?R" for k
    using aligned_offset [OF al, of "m_tail s"] by (metis mod_add_left_eq)
  have hs: "held sz s = chunks ?z (map ?g [0..<(?h - ?t) * ?z])"
    unfolding held_bytes_aligned [OF wf al inv] by (simp add: diff_mult_distrib)
  have lh: "length (held sz s) = ?h - ?t"
    by (simp add: length_held [OF wf i(2)] size_rb_def N)
  \<comment> \<open>what the call returns\<close>
  from nN have "unat n * ?z \<le> (?h - ?t) * ?z" by (rule mult_le_mono1)
  then have "map ?g [0..<unat n * ?z] = take (unat n * ?z) (map ?g [0..<(?h - ?t) * ?z])"
    by (simp add: take_map min_def)
  then have "chunks ?z (map ?g [0..<unat n * ?z]) = take (unat n) (held sz s)"
    by (simp only: hs chunks_take [OF z])
  with read_result [OF wf i(2) el, folded n_def]
  have r: "read sz s outp = Some (s', take (unat n) (held sz s) @ drop (unat n) outp, n)"
    by (simp add: off s'_def)
  \<comment> \<open>what the buffer holds afterwards\<close>
  note c = read_cursors [OF r] and iv = read_invariant [OF r inv]
  have wf': "well_formed sz s'" using wf by (simp add: well_formed_cong [OF c(4,5)])
  have al': "aligned sz s'" using al by (simp add: aligned_def c(4,5))
  have "m_tail s' \<le> m_head s'" using iv(1) by (simp add: invariant_def)
  then have "unat (m_tail s') \<le> ?h" by (simp add: word_le_nat_alt c(2))
  moreover have "unat (m_tail s') = (?t + unat n) mod 2 ^ 64"
    by (simp add: c(3) unat_word_ariths)
  moreover have "?h < 2 ^ LENGTH(64)" by (rule unsigned_less)
  then have "?t + unat n < 2 ^ 64" using nN th by simp
  ultimately have t': "unat (m_tail s') = ?t + unat n" by simp
  have e: "?h * ?z - (?t + unat n) * ?z = (?h - ?t) * ?z - unat n * ?z"
    by (simp add: diff_mult_distrib add_mult_distrib)
  have "drop (unat n * ?z) (map ?g [0..<(?h - ?t) * ?z])
      = map ?g [unat n * ?z..<(?h - ?t) * ?z]"
    by (simp add: drop_map drop_upt)
  also have "\<dots> = map (\<lambda>k. ?g (unat n * ?z + k)) [0..<(?h - ?t) * ?z - unat n * ?z]"
    by (rule map_upt_shift)
  also have "\<dots> = map (\<lambda>k. m_buffer s (((?t + unat n) * ?z + k) mod ?R))
                        [0..<?h * ?z - (?t + unat n) * ?z]"
    unfolding e by (simp add: add_mult_distrib add.assoc)
  finally have "map (\<lambda>k. m_buffer s (((?t + unat n) * ?z + k) mod ?R)) [0..<?h * ?z - (?t + unat n) * ?z]
      = drop (unat n * ?z) (map ?g [0..<(?h - ?t) * ?z])" by (rule sym)
  then have "held sz s' = chunks ?z (drop (unat n * ?z) (map ?g [0..<(?h - ?t) * ?z]))"
    unfolding held_bytes_aligned [OF wf' al' iv(1)] t' c(2,5,6) by (simp only:)
  then have "held sz s' = drop (unat n) (held sz s)"
    by (simp only: chunks_drop [OF z] hs)
  with r un lh iv(1) show ?thesis by auto
qed

end
